theory Spec2Isabelle
  imports Main
begin

text \<open>
  A shallow embedding of the request-handling core of apollo-server:
  \<^item> \<open>lib/RequestHandler.js\<close>: the middleware dispatcher
    (\<open>addMiddleware\<close>, \<open>handle\<close>, \<open>handleRequest\<close>, \<open>createRequestHandler\<close>);
  \<^item> \<open>lib/Server.js\<close>: the conversion of a node request into a Request value and
    the writing of the response head (\<open>Server.handleRequest\<close>);
  \<^item> \<open>lib/ServerBuilder.js\<close>: \<open>build\<close> with its guard on the server factory.

  A promise is modelled by the result it settles with: \<open>Inr\<close> a value when it is
  fulfilled, \<open>Inl\<close> an error when it is rejected. A synchronous throw inside an
  \<open>async\<close> function rejects its promise, so both are the same \<open>Inl\<close>.
\<close>

section \<open>Errors\<close>

text \<open>
  Both errors of the source are plain \<open>new Error(message)\<close>; the names the
  specification gives them stand for the two messages.
\<close>

datatype error = Error string

definition NoMiddlewareAvailable :: error where
  "NoMiddlewareAvailable = Error ''No middleware available to process request''"

definition MisconfiguredTransport :: error where
  "MisconfiguredTransport = Error ''No server factory provided''"

section \<open>Middleware units\<close>

text \<open>
  A middleware unit is any object with a method \<open>process(request, requestHandler)\<close>
  that returns a promise of a response. The dispatcher only sees what a unit does
  to it, so the body of \<open>process\<close> is modelled by the tree of those interactions:
  \<^item> \<open>Respond r\<close>: the promise is fulfilled with the response \<open>r\<close>;
  \<^item> \<open>Throw e\<close>: the method throws \<open>e\<close> (its promise is rejected);
  \<^item> \<open>Next style q k\<close>: the unit awaits its next-handler on the request \<open>q\<close> and goes
    on as \<open>k\<close> of the settled result, so \<open>k (Inl e)\<close> is what a \<open>catch\<close> block (or the
    absence of one) does with a failure of the rest of the chain. The style
    records whether the handler was called as a function, \<open>next(q)\<close>, or through a
    property, \<open>next.handle(q)\<close>;
  \<^item> \<open>Register u p\<close>: the unit calls \<open>addMiddleware(u)\<close> on the dispatcher, then goes
    on as \<open>p\<close>. It also stands for a registration made by other code while the unit
    is suspended, since the scheduler is single-threaded.

  A unit may call its next-handler any number of times. Units are not modelled
  that leave a next-handler call unawaited, that call \<open>handle\<close> of the dispatcher
  from inside \<open>process\<close>, or that write to the private fields of the dispatcher.

  A unit carries a number that identifies it in the trace.
\<close>

datatype call_style = Direct | Property string

datatype ('q, 'r) behaviour =
    Respond 'r
  | Throw error
  | Next call_style 'q "error + 'r \<Rightarrow> ('q, 'r) behaviour"
  | Register "nat \<times> ('q \<Rightarrow> ('q, 'r) behaviour)" "('q, 'r) behaviour"

type_synonym ('q, 'r) MiddlewareInterface = "nat \<times> ('q \<Rightarrow> ('q, 'r) behaviour)"

definition uid :: "('q, 'r) MiddlewareInterface \<Rightarrow> nat" where
  "uid u = fst u"

definition process :: "('q, 'r) MiddlewareInterface \<Rightarrow> 'q \<Rightarrow> ('q, 'r) behaviour" where
  "process u = snd u"

section \<open>RequestHandler\<close>

text \<open>
  The object has one field, \<open>this.middleware\<close>. The state that the functions below
  pass along holds two more components:
  \<^item> \<open>queue\<close> is the array that \<open>handle\<close> obtains from \<open>this.middleware.slice()\<close>. The
    closure handed to every unit of one call refers to this one array, and
    \<open>shift()\<close> removes its head in place, so the array is state shared by all
    next-handlers of the call and not a value copied per step;
  \<^item> \<open>trace\<close> is not in the source. It records, in order, each activation of
    \<open>handleRequest\<close> with the request it received and the number of the unit it
    removed from the queue and invoked (\<open>None\<close> when the queue was empty), and each
    call of \<open>addMiddleware\<close>. The properties below are stated on it.
\<close>

datatype ('q, 'r) event =
    Dispatched 'q "nat option"
  | Added "('q, 'r) MiddlewareInterface"

record ('q, 'r) RequestHandler =
  middleware :: "('q, 'r) MiddlewareInterface list"
  queue :: "('q, 'r) MiddlewareInterface list"
  trace :: "('q, 'r) event list"

type_synonym ('q, 'r) settled = "(error + 'r) \<times> ('q, 'r) RequestHandler"

text \<open>\<open>constructor()\<close>: \<open>this.middleware = []\<close>.\<close>

definition constructor :: "('q, 'r) RequestHandler" where
  "constructor = \<lparr>middleware = [], queue = [], trace = []\<rparr>"

text \<open>\<open>addMiddleware(middleware)\<close>: \<open>this.middleware.push(middleware)\<close>.\<close>

definition addMiddleware ::
  "('q, 'r) MiddlewareInterface \<Rightarrow> ('q, 'r) RequestHandler \<Rightarrow> ('q, 'r) RequestHandler" where
  "addMiddleware u s = s\<lparr>middleware := middleware s @ [u], trace := trace s @ [Added u]\<rparr>"

text \<open>
  \<open>createRequestHandler(handlerFunction)\<close> returns
  \<open>new Proxy(handlerFunction, {get: target => target})\<close>. The proxy has no \<open>apply\<close>
  trap, so calling it calls the target; its \<open>get\<close> trap answers every property
  name with the target itself, so calling a property of it calls the target too
  (the target is an arrow function and ignores the receiver).
\<close>

definition createRequestHandler :: "('q \<Rightarrow> 's \<Rightarrow> 'a) \<Rightarrow> call_style \<Rightarrow> 'q \<Rightarrow> 's \<Rightarrow> 'a" where
  "createRequestHandler handlerFunction sty =
     (case sty of
        Direct \<Rightarrow> handlerFunction
      | Property name \<Rightarrow> (\<lambda>target. target) handlerFunction)"

text \<open>
  \<open>run nxt p s\<close> executes the body \<open>p\<close> of a \<open>process\<close> method in the state \<open>s\<close>, with
  \<open>nxt\<close> as the next-handler it was given. \<open>None\<close> means that the dispatch below ran
  out of fuel (see \<open>handleRequest\<close>).
\<close>

primrec run ::
  "(call_style \<Rightarrow> 'q \<Rightarrow> ('q, 'r) RequestHandler \<Rightarrow> ('q, 'r) settled option) \<Rightarrow>
   ('q, 'r) behaviour \<Rightarrow> ('q, 'r) RequestHandler \<Rightarrow> ('q, 'r) settled option" where
  "run nxt (Respond r) s = Some (Inr r, s)"
| "run nxt (Throw e) s = Some (Inl e, s)"
| "run nxt (Next sty q k) s =
     (case nxt sty q s of
        None \<Rightarrow> None
      | Some (res, s') \<Rightarrow> run nxt (k res) s')"
| "run nxt (Register u p) s = run nxt p (addMiddleware u s)"

text \<open>
  \<open>handleRequest(request, middleware)\<close>:
  \<^verbatim>\<open>
    if (middleware.length === 0) {
        throw new Error("No middleware available to process request");
    }
    return await middleware.shift().process(
        request,
        this.createRequestHandler(request => this.handleRequest(request, middleware))
    );
  \<close>
  The recursion of the source goes through the unit, which decides whether and
  how often the closure is called, so it is not structural. The model recurses on
  a fuel argument instead: each nested activation uses one unit of fuel, and an
  activation that finds a unit in the queue with no fuel left returns \<open>None\<close>. Every
  nested activation works on a queue that the enclosing one has shortened, so
  fuel equal to the length of the queue is never used up (\<open>handleRequest_step\<close>
  below); \<open>handle\<close> supplies that much.
\<close>

primrec handleRequest ::
  "nat \<Rightarrow> 'q \<Rightarrow> ('q, 'r) RequestHandler \<Rightarrow> ('q, 'r) settled option" where
  "handleRequest 0 request s =
     (case queue s of
        [] \<Rightarrow> Some (Inl NoMiddlewareAvailable, s\<lparr>trace := trace s @ [Dispatched request None]\<rparr>)
      | u # rest \<Rightarrow> None)"
| "handleRequest (Suc fuel) request s =
     (case queue s of
        [] \<Rightarrow> Some (Inl NoMiddlewareAvailable, s\<lparr>trace := trace s @ [Dispatched request None]\<rparr>)
      | u # rest \<Rightarrow>
          run (createRequestHandler (handleRequest fuel)) (process u request)
            (s\<lparr>queue := rest, trace := trace s @ [Dispatched request (Some (uid u))]\<rparr>))"

text \<open>\<open>handle(request)\<close>: \<open>return this.handleRequest(request, this.middleware.slice())\<close>.\<close>

definition handle :: "'q \<Rightarrow> ('q, 'r) RequestHandler \<Rightarrow> ('q, 'r) settled option" where
  "handle request s = handleRequest (length (middleware s)) request (s\<lparr>queue := middleware s\<rparr>)"

text \<open>Several calls of \<open>handle\<close>, one after the other, as a server makes them.\<close>

fun handle_all :: "'q list \<Rightarrow> ('q, 'r) RequestHandler \<Rightarrow> ('q, 'r) RequestHandler option" where
  "handle_all [] s = Some s"
| "handle_all (q # qs) s =
     (case handle q s of
        None \<Rightarrow> None
      | Some (res, s') \<Rightarrow> handle_all qs s')"

section \<open>Readings of the trace\<close>

text \<open>
  The numbers of the units invoked, the invocations with the request each unit was
  handed, the units registered, and the requests that the activations of
  \<open>handleRequest\<close> received, each in order of occurrence.
\<close>

fun invoked :: "('q, 'r) event list \<Rightarrow> nat list" where
  "invoked [] = []"
| "invoked (Dispatched q (Some n) # es) = n # invoked es"
| "invoked (Dispatched q None # es) = invoked es"
| "invoked (Added u # es) = invoked es"

fun dispatched :: "('q, 'r) event list \<Rightarrow> ('q \<times> nat) list" where
  "dispatched [] = []"
| "dispatched (Dispatched q (Some n) # es) = (q, n) # dispatched es"
| "dispatched (Dispatched q None # es) = dispatched es"
| "dispatched (Added u # es) = dispatched es"

fun added :: "('q, 'r) event list \<Rightarrow> ('q, 'r) MiddlewareInterface list" where
  "added [] = []"
| "added (Added u # es) = u # added es"
| "added (Dispatched q n # es) = added es"

fun requests :: "('q, 'r) event list \<Rightarrow> 'q list" where
  "requests [] = []"
| "requests (Dispatched q n # es) = q # requests es"
| "requests (Added u # es) = requests es"

section \<open>Shapes of unit behaviour\<close>

text \<open>
  \<open>first_action p\<close> is what the unit does to the dispatch first, after the
  registrations it may make before (\<open>registrations p\<close>): it responds, throws, or
  calls its next-handler.
\<close>

primrec first_action :: "('q, 'r) behaviour \<Rightarrow> ('q, 'r) behaviour" where
  "first_action (Respond r) = Respond r"
| "first_action (Throw e) = Throw e"
| "first_action (Next sty q k) = Next sty q k"
| "first_action (Register u p) = first_action p"

primrec registrations :: "('q, 'r) behaviour \<Rightarrow> ('q, 'r) MiddlewareInterface list" where
  "registrations (Respond r) = []"
| "registrations (Throw e) = []"
| "registrations (Next sty q k) = []"
| "registrations (Register u p) = u # registrations p"

text \<open>The unit calls its next-handler (at least once) before it settles.\<close>

definition calls_next :: "('q, 'r) behaviour \<Rightarrow> bool" where
  "calls_next p = (case first_action p of Next sty q k \<Rightarrow> True | _ \<Rightarrow> False)"

text \<open>The unit calls its next-handler exactly once, whatever that call settles with.\<close>

definition calls_next_once :: "('q, 'r) behaviour \<Rightarrow> bool" where
  "calls_next_once p =
     (case first_action p of
        Next sty q k \<Rightarrow> (\<forall>res. \<not> calls_next (k res))
      | _ \<Rightarrow> False)"

text \<open>
  The unit calls its next-handler at most once: after the first call has settled it
  makes no other. This is the contract that the specification puts on a unit.
\<close>

definition at_most_once :: "('q, 'r) behaviour \<Rightarrow> bool" where
  "at_most_once p =
     (case first_action p of
        Next sty q k \<Rightarrow> (\<forall>res. \<not> calls_next (k res))
      | _ \<Rightarrow> True)"

text \<open>
  The units that a chain reaches from the request \<open>q\<close>, each with the request it is
  handed: the first unit with \<open>q\<close>, and, as long as the unit reached calls its
  next-handler, the unit behind it with the request passed in that call. The chain
  ends with the first unit that settles without calling its next-handler on the
  request it is handed, or with the last unit.
\<close>

fun reached ::
  "('q, 'r) MiddlewareInterface list \<Rightarrow> 'q \<Rightarrow> (('q, 'r) MiddlewareInterface \<times> 'q) list" where
  "reached [] q = []"
| "reached (u # us) q =
     (u, q) # (case first_action (process u q) of
                 Next sty q' k \<Rightarrow> reached us q'
               | _ \<Rightarrow> [])"

text \<open>
  The unit calls its next-handler and has no \<open>catch\<close> around the call: when the call
  fails, the unit throws the same error, as \<open>return await next.handle(request)\<close>
  does.
\<close>

definition rethrows :: "('q, 'r) behaviour \<Rightarrow> bool" where
  "rethrows p =
     (case first_action p of
        Next sty q k \<Rightarrow> (\<forall>e. first_action (k (Inl e)) = Throw e)
      | _ \<Rightarrow> False)"

text \<open>Every call the unit makes to its next-handler passes the request \<open>x\<close>.\<close>

primrec only_forwards :: "'q \<Rightarrow> ('q, 'r) behaviour \<Rightarrow> bool" where
  "only_forwards x (Respond r) = True"
| "only_forwards x (Throw e) = True"
| "only_forwards x (Next sty q k) = (q = x \<and> (\<forall>res. only_forwards x (k res)))"
| "only_forwards x (Register u p) = only_forwards x p"

text \<open>The unit never calls \<open>addMiddleware\<close>.\<close>

primrec never_registers :: "('q, 'r) behaviour \<Rightarrow> bool" where
  "never_registers (Respond r) = True"
| "never_registers (Throw e) = True"
| "never_registers (Next sty q k) = (\<forall>res. never_registers (k res))"
| "never_registers (Register u p) = False"

text \<open>The same body, with every call of the next-handler made in the style \<open>sty\<close>.\<close>

primrec restyle :: "call_style \<Rightarrow> ('q, 'r) behaviour \<Rightarrow> ('q, 'r) behaviour" where
  "restyle sty (Respond r) = Respond r"
| "restyle sty (Throw e) = Throw e"
| "restyle sty (Next sty0 q k) = Next sty q (\<lambda>res. restyle sty (k res))"
| "restyle sty (Register u p) = Register u (restyle sty p)"

section \<open>Server\<close>

text \<open>
  The node objects, with the fields that \<open>Server.handleRequest\<close> reads and writes:
  \<^item> the incoming message \<open>req\<close>: \<open>req.method\<close>, \<open>req.url\<close>, \<open>req.headers.host\<close>
    (\<open>None\<close> when the header is absent), \<open>req.rawHeaders\<close> (names and values
    alternating in one flat array) and the payload that can be read from it;
  \<^item> the outgoing message \<open>res\<close>: the stream piped into it, and the head written
    by \<open>res.writeHead(statusCode, reasonPhrase, headers)\<close>;
  \<^item> the node server, which is an instance of the https server class or not.
  The Response is the value that the request handler produces; the source reads
  its \<open>statusCode\<close>, \<open>reasonPhrase\<close>, \<open>headers\<close> (an object from names to arrays of
  values, here its entries in the order \<open>Object.entries\<close> yields them) and \<open>body\<close>.
\<close>

datatype nodeServer = HttpServer | HttpsServer

record 'p IncomingMessage =
  "method" :: string
  url :: string
  host :: "string option"
  rawHeaders :: "string list"
  payload :: 'p

record 'b Response =
  statusCode :: nat
  reasonPhrase :: string
  headers :: "(string \<times> string list) list"
  body :: 'b

record 'b ServerResponse =
  sink :: "'b option"
  head :: "(nat \<times> string \<times> (string \<times> string) list) option"

text \<open>
  The operations of the HTTP library that the server calls. The library is not
  part of this repository, so they are parameters of the server:
  \<open>requestFactory.createRequest(method, url)\<close>, \<open>request.withBody(req)\<close> and
  \<open>request.withHeader(name, value)\<close>. The value passed to \<open>withHeader\<close> is
  \<open>req.rawHeaders[i + 1]\<close>, which is \<open>undefined\<close> past the end of the array: \<open>None\<close>.
\<close>

record ('rq, 'p) RequestFactory =
  createRequest :: "string \<Rightarrow> string \<Rightarrow> 'rq"
  withBody :: "'rq \<Rightarrow> 'p IncomingMessage \<Rightarrow> 'rq"
  withHeader :: "'rq \<Rightarrow> string \<Rightarrow> string option \<Rightarrow> 'rq"

text \<open>
  The request handler of a server is anything with a method \<open>handle(request)\<close> that
  returns a promise of a Response: a function to the settled result.
\<close>

record ('rq, 'p, 'b, 'l) Server =
  nodeServer :: nodeServer
  requestHandler :: "'rq \<Rightarrow> error + 'b Response"
  requestFactory :: "('rq, 'p) RequestFactory"
  logger :: 'l
  urlScheme :: string

text \<open>
  The constructor stores its arguments and fixes the scheme:
  \<open>this.nodeServer instanceof HttpsServer ? "https" : "http"\<close>. The listeners it
  registers on the node server are not modelled.
\<close>

definition new_Server ::
  "nodeServer \<Rightarrow> ('rq \<Rightarrow> error + 'b Response) \<Rightarrow> ('rq, 'p) RequestFactory \<Rightarrow> 'l \<Rightarrow>
   ('rq, 'p, 'b, 'l) Server" where
  "new_Server node handler factory lg =
     \<lparr>nodeServer = node, requestHandler = handler, requestFactory = factory, logger = lg,
      urlScheme = (if node = HttpsServer then ''https'' else ''http'')\<rparr>"

definition pipe :: "'b \<Rightarrow> 'b ServerResponse \<Rightarrow> 'b ServerResponse" where
  "pipe b res = res\<lparr>sink := Some b\<rparr>"

definition writeHead ::
  "nat \<Rightarrow> string \<Rightarrow> (string \<times> string) list \<Rightarrow> 'b ServerResponse \<Rightarrow> 'b ServerResponse" where
  "writeHead status reason hs res = res\<lparr>head := Some (status, reason, hs)\<rparr>"

text \<open>\<open>Array.prototype.join\<close> on an array of strings.\<close>

fun join :: "string \<Rightarrow> string list \<Rightarrow> string" where
  "join sep [] = []"
| "join sep [v] = v"
| "join sep (v # w # vs) = v @ sep @ join sep (w # vs)"

text \<open>
  An object literal \<open>{...headers, [name]: v}\<close>: the properties of \<open>headers\<close> in their
  order, with \<open>name\<close> set to \<open>v\<close>, in place when \<open>headers\<close> has it and at the end
  otherwise.
\<close>

fun set_property :: "string \<Rightarrow> 'v \<Rightarrow> (string \<times> 'v) list \<Rightarrow> (string \<times> 'v) list" where
  "set_property name v [] = [(name, v)]"
| "set_property name v ((k, w) # ps) =
     (if k = name then (k, v) # ps else (k, w) # set_property name v ps)"

text \<open>
  The loop of \<open>Server.handleRequest\<close>:
  \<^verbatim>\<open>
    for (let i = 0; i < req.rawHeaders.length; i += 2) {
        request = request.withHeader(req.rawHeaders[i], req.rawHeaders[i + 1]);
    }
  \<close>
\<close>

function with_raw_headers ::
  "('rq \<Rightarrow> string \<Rightarrow> string option \<Rightarrow> 'rq) \<Rightarrow> string list \<Rightarrow> nat \<Rightarrow> 'rq \<Rightarrow> 'rq" where
  "with_raw_headers wh raw i request =
     (if i < length raw
      then with_raw_headers wh raw (i + 2)
             (wh request (raw ! i) (if i + 1 < length raw then Some (raw ! (i + 1)) else None))
      else request)"
  by pat_completeness auto
termination
  by (relation "measure (\<lambda>(wh, raw, i, request). length raw - i)") auto

text \<open>
  The first half of \<open>Server.handleRequest\<close>: the request made from the method and
  the URL \<open>`${this.urlScheme}://${req.headers.host}${req.url}`\<close> (an absent host
  prints as \<open>undefined\<close>), with the incoming message as its body, and then the loop
  over the raw headers.
\<close>

definition to_request :: "('rq, 'p, 'b, 'l) Server \<Rightarrow> 'p IncomingMessage \<Rightarrow> 'rq" where
  "to_request srv req =
     with_raw_headers (withHeader (requestFactory srv)) (rawHeaders req) 0
       (withBody (requestFactory srv)
          (createRequest (requestFactory srv) (method req)
             (urlScheme srv @ ''://'' @ (case host req of None \<Rightarrow> ''undefined'' | Some h \<Rightarrow> h) @ url req))
          req)"

text \<open>
  The header argument of \<open>writeHead\<close>:
  \<^verbatim>\<open>
    Object.entries(response.headers).reduce((headers, [name, values]) => ({
        ...headers,
        [name]: values.join(",")
    }), {})
  \<close>
\<close>

definition head_fields :: "(string \<times> string list) list \<Rightarrow> (string \<times> string) list" where
  "head_fields entries =
     foldl (\<lambda>hs (name, values). set_property name (join '','' values) hs) [] entries"

text \<open>
  \<open>Server.handleRequest(req, res)\<close>. When the request handler fails, the \<open>await\<close>
  throws and nothing is written; otherwise the body is piped into \<open>res\<close> and the
  head is written.
\<close>

definition Server_handleRequest ::
  "('rq, 'p, 'b, 'l) Server \<Rightarrow> 'p IncomingMessage \<Rightarrow> 'b ServerResponse \<Rightarrow> error + 'b ServerResponse" where
  "Server_handleRequest srv req res =
     (case requestHandler srv (to_request srv req) of
        Inl e \<Rightarrow> Inl e
      | Inr response \<Rightarrow>
          Inr (writeHead (statusCode response) (reasonPhrase response)
                 (head_fields (headers response))
                 (pipe (body response) res)))"

text \<open>
  The raw headers read as pairs of a name and a value, two array cells at a time; a
  last name with no value after it is paired with \<open>undefined\<close>, as the loop reads it.
\<close>

fun pairs :: "string list \<Rightarrow> (string \<times> string option) list" where
  "pairs [] = []"
| "pairs [name] = [(name, None)]"
| "pairs (name # v # rest) = (name, Some v) # pairs rest"

section \<open>The Request value\<close>

text \<open>
  Modelled from the spec: the Request value and its operations \<open>createRequest\<close>,
  \<open>withBody\<close> and \<open>withHeader\<close> belong to the HTTP library
  \<open>@moonwalkingbits/apollo-http\<close>, whose code is not among the sources. The
  specification describes the Request as an immutable value with a method, a
  target URL, a body stream and headers that are an ordered multi-map from a name
  to its ordered values; a with-operation returns a new value; and folding the raw
  header pairs through with-header keeps the order and the repeated values of a
  name. So \<open>spec_withHeader\<close> appends the value to the values of the name, and a
  name that is new goes after the names already there. Names are compared as they
  are written.
\<close>

record 'p Request =
  requestMethod :: string
  requestUrl :: string
  requestHeaders :: "(string \<times> string option list) list"
  requestBody :: "'p IncomingMessage option"

text \<open>
  Modelled from the spec: the library's insertion of a value into the ordered
  multi-map of headers is missing; the value goes behind the values the name has.
\<close>

fun add_value ::
  "string \<Rightarrow> 'v \<Rightarrow> (string \<times> 'v list) list \<Rightarrow> (string \<times> 'v list) list" where
  "add_value name v [] = [(name, [v])]"
| "add_value name v ((k, vs) # hs) =
     (if k = name then (k, vs @ [v]) # hs else (k, vs) # add_value name v hs)"

text \<open>
  Modelled from the spec: \<open>createRequest(method, absoluteUrl)\<close> of the library's
  request factory is missing; a request with the method and the URL, no header and
  no body yet.
\<close>

definition spec_createRequest :: "string \<Rightarrow> string \<Rightarrow> 'p Request" where
  "spec_createRequest m u =
     \<lparr>requestMethod = m, requestUrl = u, requestHeaders = [], requestBody = None\<rparr>"

text \<open>
  Modelled from the spec: \<open>withBody\<close> of the library's Request is missing; a new
  value with the body replaced.
\<close>

definition spec_withBody :: "'p Request \<Rightarrow> 'p IncomingMessage \<Rightarrow> 'p Request" where
  "spec_withBody r b = r\<lparr>requestBody := Some b\<rparr>"

text \<open>
  Modelled from the spec: \<open>withHeader\<close> of the library's Request is missing; a new
  value in which the name has one more value, after those it had.
\<close>

definition spec_withHeader :: "'p Request \<Rightarrow> string \<Rightarrow> string option \<Rightarrow> 'p Request" where
  "spec_withHeader r name v = r\<lparr>requestHeaders := add_value name v (requestHeaders r)\<rparr>"

text \<open>
  Modelled from the spec: the three missing operations of the library, as the
  request factory given to a server.
\<close>

definition spec_requestFactory :: "('p Request, 'p) RequestFactory" where
  "spec_requestFactory =
     \<lparr>createRequest = spec_createRequest, withBody = spec_withBody, withHeader = spec_withHeader\<rparr>"

text \<open>
  Modelled from the spec: the library's reading of a header is missing; the ordered
  values that a Request exposes for a name, none for a name it does not have.
\<close>

definition header_values :: "'p Request \<Rightarrow> string \<Rightarrow> string option list" where
  "header_values r name = (case map_of (requestHeaders r) name of None \<Rightarrow> [] | Some vs \<Rightarrow> vs)"

section \<open>ServerBuilder\<close>

text \<open>
  The fields of the builder are unset until a \<open>use\<close> method sets them. The server
  factory is a function of no argument that returns a node server; like any call
  it may throw.

  A startup class is code of the application. \<open>build\<close> constructs it through the
  container and invokes its \<open>configure\<close> method; both may throw, and both may reach
  the builder, which \<open>build\<close> binds in the container as \<open>serverBuilder\<close>, and call
  \<open>useServerFactory\<close> on it. So each of the two steps is a function from the server
  factory field of the builder to an error or to the new content of the field.
\<close>

type_synonym NodeServerFactory = "unit \<Rightarrow> error + nodeServer"

record Startup =
  construct :: "NodeServerFactory option \<Rightarrow> error + NodeServerFactory option"
  configure :: "NodeServerFactory option \<Rightarrow> error + NodeServerFactory option"

record ('c, 'l) ServerBuilder =
  serverFactory :: "NodeServerFactory option"
  startupClass :: "Startup option"
  configuration :: "'c option"
  builderLogger :: "'l option"

text \<open>
  What the container resolves when it constructs the server, and the defaults that
  the configuration builder and the logger builder produce. The container and the
  two builders are libraries outside this repository.
\<close>

record ('rq, 'p, 'b, 'c, 'l) Container =
  boundRequestHandler :: "'rq \<Rightarrow> error + 'b Response"
  boundRequestFactory :: "('rq, 'p) RequestFactory"
  defaultConfiguration :: 'c
  defaultLogger :: 'l

text \<open>The constructor declares the four fields and sets none.\<close>

definition new_ServerBuilder :: "('c, 'l) ServerBuilder" where
  "new_ServerBuilder =
     \<lparr>serverFactory = None, startupClass = None, configuration = None, builderLogger = None\<rparr>"

definition useServerFactory :: "NodeServerFactory \<Rightarrow> ('c, 'l) ServerBuilder \<Rightarrow> ('c, 'l) ServerBuilder" where
  "useServerFactory f b = b\<lparr>serverFactory := Some f\<rparr>"

definition useStartupClass :: "Startup \<Rightarrow> ('c, 'l) ServerBuilder \<Rightarrow> ('c, 'l) ServerBuilder" where
  "useStartupClass c b = b\<lparr>startupClass := Some c\<rparr>"

definition useConfiguration :: "'c \<Rightarrow> ('c, 'l) ServerBuilder \<Rightarrow> ('c, 'l) ServerBuilder" where
  "useConfiguration c b = b\<lparr>configuration := Some c\<rparr>"

definition useLogger :: "'l \<Rightarrow> ('c, 'l) ServerBuilder \<Rightarrow> ('c, 'l) ServerBuilder" where
  "useLogger l b = b\<lparr>builderLogger := Some l\<rparr>"

text \<open>\<open>this.configuration ?? await new ConfigurationBuilder().build()\<close>.\<close>

definition createConfiguration :: "('rq, 'p, 'b, 'c, 'l) Container \<Rightarrow> ('c, 'l) ServerBuilder \<Rightarrow> 'c" where
  "createConfiguration env b = (case configuration b of Some c \<Rightarrow> c | None \<Rightarrow> defaultConfiguration env)"

text \<open>\<open>this.logger ?? new LoggerBuilder().build()\<close>.\<close>

definition createLogger :: "('rq, 'p, 'b, 'c, 'l) Container \<Rightarrow> ('c, 'l) ServerBuilder \<Rightarrow> 'l" where
  "createLogger env b = (case builderLogger b of Some l \<Rightarrow> l | None \<Rightarrow> defaultLogger env)"

text \<open>
  The startup step of \<open>build\<close>:
  \<^verbatim>\<open>
    if (this.startupClass) {
        const startupInstance = container.construct(this.startupClass);
        await container.invoke(startupInstance.configure.bind(startupInstance), {}, startupInstance.configure);
    }
  \<close>
  Its result is the server factory field as the guard after it finds it.
\<close>

definition run_startup :: "('c, 'l) ServerBuilder \<Rightarrow> error + NodeServerFactory option" where
  "run_startup b =
     (case startupClass b of
        None \<Rightarrow> Inr (serverFactory b)
      | Some startup \<Rightarrow>
          (case construct startup (serverFactory b) of
             Inl e \<Rightarrow> Inl e
           | Inr sf \<Rightarrow> configure startup sf))"

text \<open>
  \<open>build()\<close>: the bindings, the startup step, the guard
  \<^verbatim>\<open>
    if (!this.serverFactory) {
        throw new Error("No server factory provided");
    }
  \<close>
  and the construction of the server on \<open>this.serverFactory()\<close>.
\<close>

definition build ::
  "('rq, 'p, 'b, 'c, 'l) Container \<Rightarrow> ('c, 'l) ServerBuilder \<Rightarrow> error + ('rq, 'p, 'b, 'l) Server" where
  "build env b =
     (let cfg = createConfiguration env b; lg = createLogger env b in
      case run_startup b of
        Inl e \<Rightarrow> Inl e
      | Inr sf \<Rightarrow>
          (case sf of
             None \<Rightarrow> Inl MisconfiguredTransport
           | Some factory \<Rightarrow>
               (case factory () of
                  Inl e \<Rightarrow> Inl e
                | Inr node \<Rightarrow>
                    Inr (new_Server node (boundRequestHandler env) (boundRequestFactory env) lg))))"

section \<open>Vocabulary of the proofs\<close>

text \<open>
  \<open>step s evs s'\<close>: from \<open>s\<close> to \<open>s'\<close> the trace grew by \<open>evs\<close>, the stored list grew by
  the units registered in \<open>evs\<close>, and the queue lost at its front exactly the units
  that \<open>evs\<close> reports as invoked.
\<close>

definition step ::
  "('q, 'r) RequestHandler \<Rightarrow> ('q, 'r) event list \<Rightarrow> ('q, 'r) RequestHandler \<Rightarrow> bool" where
  "step s evs s' \<longleftrightarrow>
     trace s' = trace s @ evs \<and>
     middleware s' = middleware s @ added evs \<and>
     (\<exists>shifted. queue s = shifted @ queue s' \<and> invoked evs = map uid shifted)"

text \<open>
  The state in which the body of \<open>process\<close> of the unit \<open>u\<close> reaches its first
  action, when \<open>u\<close> was at the head of the queue and \<open>rest\<close> behind it.
\<close>

definition entered ::
  "('q, 'r) MiddlewareInterface \<Rightarrow> 'q \<Rightarrow> ('q, 'r) MiddlewareInterface list \<Rightarrow>
   ('q, 'r) RequestHandler \<Rightarrow> ('q, 'r) RequestHandler" where
  "entered u q rest s =
     fold addMiddleware (registrations (process u q))
       (s\<lparr>queue := rest, trace := trace s @ [Dispatched q (Some (uid u))]\<rparr>)"

definition forwarding :: "('q, 'r) RequestHandler \<Rightarrow> bool" where
  "forwarding s \<longleftrightarrow> (\<forall>d\<in>set (queue s). \<forall>y. only_forwards y (process d y))"

definition quiet :: "('q, 'r) RequestHandler \<Rightarrow> bool" where
  "quiet s \<longleftrightarrow> (\<forall>u\<in>set (queue s). \<forall>x. never_registers (process u x))"

section \<open>Example units\<close>

text \<open>
  Units for the concrete runs below, on requests that are strings and responses
  that are status codes. \<open>passes\<close> is the middleware of \<open>index.test-d.ts\<close>, whose
  \<open>process\<close> is \<open>return requestHandler.handle(request)\<close>; \<open>answers\<close> responds by itself;
  \<open>fails\<close> throws; \<open>gate\<close> passes the request \<open>GET /open\<close> on and answers every other
  by itself; \<open>redirects\<close> passes another request on; \<open>enrols\<close> registers a unit
  and passes the request on; \<open>retries\<close> calls its next-handler a second time after
  the first call has settled.
\<close>

definition passes :: "nat \<Rightarrow> (string, nat) MiddlewareInterface" where
  "passes n =
     (n, \<lambda>request. Next (Property ''handle'') request
                     (\<lambda>res. case res of Inl e \<Rightarrow> Throw e | Inr r \<Rightarrow> Respond r))"

definition answers :: "nat \<Rightarrow> nat \<Rightarrow> (string, nat) MiddlewareInterface" where
  "answers n code = (n, \<lambda>request. Respond code)"

definition fails :: "nat \<Rightarrow> string \<Rightarrow> (string, nat) MiddlewareInterface" where
  "fails n message = (n, \<lambda>request. Throw (Error message))"

definition redirects :: "nat \<Rightarrow> string \<Rightarrow> (string, nat) MiddlewareInterface" where
  "redirects n target =
     (n, \<lambda>request. Next Direct target
                     (\<lambda>res. case res of Inl e \<Rightarrow> Throw e | Inr r \<Rightarrow> Respond r))"

definition enrols :: "nat \<Rightarrow> (string, nat) MiddlewareInterface \<Rightarrow> (string, nat) MiddlewareInterface" where
  "enrols n u =
     (n, \<lambda>request. Register u
                     (Next Direct request
                        (\<lambda>res. case res of Inl e \<Rightarrow> Throw e | Inr r \<Rightarrow> Respond r)))"

definition gate :: "nat \<Rightarrow> (string, nat) MiddlewareInterface" where
  "gate n =
     (n, \<lambda>request. if request = ''GET /open''
                     then Next Direct request
                            (\<lambda>res. case res of Inl e \<Rightarrow> Throw e | Inr r \<Rightarrow> Respond r)
                     else Respond 403)"

definition retries :: "nat \<Rightarrow> (string, nat) MiddlewareInterface" where
  "retries n =
     (n, \<lambda>request. Next Direct request
                     (\<lambda>first. Next Direct request
                        (\<lambda>res. case res of Inl e \<Rightarrow> Throw e | Inr r \<Rightarrow> Respond r)))"

section \<open>Example builders\<close>

text \<open>
  Startup classes for the concrete builds below: one that leaves the builder as it
  is, one whose \<open>configure\<close> throws, and one whose \<open>configure\<close> gives the builder a
  server factory; and a container with the Request value of the specification.
\<close>

definition idle_startup :: Startup where
  "idle_startup = \<lparr>construct = Inr, configure = Inr\<rparr>"

definition failing_startup :: Startup where
  "failing_startup = \<lparr>construct = Inr, configure = (\<lambda>sf. Inl (Error ''boom''))\<rparr>"

definition supplying_startup :: Startup where
  "supplying_startup =
     \<lparr>construct = Inr, configure = (\<lambda>sf. Inr (Some (\<lambda>u. Inr HttpsServer)))\<rparr>"

definition example_container :: "(unit Request, unit, unit, unit, unit) Container" where
  "example_container =
     \<lparr>boundRequestHandler = (\<lambda>rq. Inl (Error ''unused'')),
      boundRequestFactory = spec_requestFactory,
      defaultConfiguration = (), defaultLogger = ()\<rparr>"

section \<open>Lemmas on the dispatcher\<close>

subsection \<open>Readings of a concatenated trace\<close>

lemma invoked_append: "invoked (xs @ ys) = invoked xs @ invoked ys"
  by (induction xs rule: invoked.induct) simp_all

lemma added_append: "added (xs @ ys) = added xs @ added ys"
  by (induction xs rule: added.induct) simp_all

lemma requests_append: "requests (xs @ ys) = requests xs @ requests ys"
  by (induction xs rule: requests.induct) simp_all

subsection \<open>Steps of a dispatch\<close>

lemma step_trans: "step s e1 s1 \<Longrightarrow> step s1 e2 s2 \<Longrightarrow> step s (e1 @ e2) s2"
  unfolding step_def by (auto simp: invoked_append added_append)

lemma step_length: "step s evs s' \<Longrightarrow> length (queue s') \<le> length (queue s)"
  unfolding step_def by auto

lemma step_add: "step s [Added u] (addMiddleware u s)"
  unfolding step_def addMiddleware_def by simp

lemma step_shift:
  "queue s = u # rest \<Longrightarrow>
   step s [Dispatched q (Some (uid u))] (s\<lparr>queue := rest, trace := trace s @ [Dispatched q (Some (uid u))]\<rparr>)"
  unfolding step_def by simp

lemma step_empty:
  "step s [Dispatched q None] (s\<lparr>trace := trace s @ [Dispatched q None]\<rparr>)"
  unfolding step_def by simp

lemma createRequestHandler_any [simp]: "createRequestHandler h sty = h"
  by (cases sty) (simp_all add: createRequestHandler_def)

subsection \<open>The fuel suffices\<close>

text \<open>
  With fuel no less than the length of the queue, \<open>handleRequest\<close> returns, whatever
  the units do, and its effect on the state is a \<open>step\<close>: the queue only loses units
  at its front, so every nested activation finds the fuel it needs. \<open>handle\<close> starts
  with the length of the stored list as fuel and a copy of the list as queue, so it
  always returns.
\<close>

lemma run_step:
  assumes nxt: "\<And>sty q s. length (queue s) \<le> n \<Longrightarrow> \<exists>res s' evs. nxt sty q s = Some (res, s') \<and> step s evs s'"
  shows "length (queue s) \<le> n \<Longrightarrow> \<exists>res s' evs. run nxt p s = Some (res, s') \<and> step s evs s'"
proof (induction p arbitrary: s)
  case (Respond r)
  have "step s [] s" by (simp add: step_def)
  then show ?case by auto
next
  case (Throw e)
  have "step s [] s" by (simp add: step_def)
  then show ?case by auto
next
  case (Next sty q k)
  from nxt [OF Next.prems] obtain res s1 e1 where
    a: "nxt sty q s = Some (res, s1)" and b: "step s e1 s1" by blast
  from b Next.prems have "length (queue s1) \<le> n" using step_length by fastforce
  from Next.IH [OF _ this, of "k res"] obtain res2 s2 e2 where
    c: "run nxt (k res) s1 = Some (res2, s2)" and d: "step s1 e2 s2" by auto
  from a c have "run nxt (Next sty q k) s = Some (res2, s2)" by simp
  with step_trans [OF b d] show ?case by blast
next
  case (Register u p)
  have "length (queue (addMiddleware u s)) \<le> n"
    using Register.prems by (simp add: addMiddleware_def)
  from Register.IH(2) [OF this] obtain res s' evs where
    a: "run nxt p (addMiddleware u s) = Some (res, s')" and b: "step (addMiddleware u s) evs s'" by blast
  from a have "run nxt (Register u p) s = Some (res, s')" by simp
  with step_trans [OF step_add b] show ?case by blast
qed

lemma handleRequest_step:
  "length (queue s) \<le> fuel \<Longrightarrow> \<exists>res s' evs. handleRequest fuel q s = Some (res, s') \<and> step s evs s'"
proof (induction fuel arbitrary: q s)
  case 0
  then show ?case using step_empty [of s q] by auto
next
  case (Suc fuel)
  show ?case
  proof (cases "queue s")
    case Nil
    then show ?thesis using step_empty [of s q] by auto
  next
    case (Cons u rest)
    let ?s1 = "s\<lparr>queue := rest, trace := trace s @ [Dispatched q (Some (uid u))]\<rparr>"
    have len: "length (queue ?s1) \<le> fuel" using Suc.prems Cons by simp
    have "\<exists>res s' evs. run (createRequestHandler (handleRequest fuel)) (process u q) ?s1 = Some (res, s') \<and> step ?s1 evs s'"
      by (rule run_step [where n = fuel, OF _ len]) (use Suc.IH in simp)
    then obtain res s' evs where
      a: "run (createRequestHandler (handleRequest fuel)) (process u q) ?s1 = Some (res, s')"
      and b: "step ?s1 evs s'" by blast
    from a Cons have "handleRequest (Suc fuel) q s = Some (res, s')" by simp
    with step_trans [OF step_shift [OF Cons] b] show ?thesis by blast
  qed
qed

lemma handle_step:
  "\<exists>res s' evs. handle q s = Some (res, s') \<and> step (s\<lparr>queue := middleware s\<rparr>) evs s'"
  unfolding handle_def by (rule handleRequest_step) simp

lemma step_queue_subset: "step s evs s' \<Longrightarrow> set (queue s') \<subseteq> set (queue s)"
  unfolding step_def by auto

lemma step_refl: "step s [] s"
  by (simp add: step_def)

lemma step_registrations: "step s (map Added us) (fold addMiddleware us s)"
proof (induction us arbitrary: s)
  case Nil
  show ?case by (simp add: step_refl)
next
  case (Cons u us)
  from step_trans [OF step_add Cons] show ?case by simp
qed

lemma queue_registrations [simp]: "queue (fold addMiddleware us s) = queue s"
  by (induction us arbitrary: s) (simp_all add: addMiddleware_def)

lemma invoked_Added [simp]: "invoked (map Added us) = []"
  by (induction us) simp_all

lemma requests_Added [simp]: "requests (map Added us) = []"
  by (induction us) simp_all

text \<open>
  Fuel beyond the length of the queue changes nothing: the result of \<open>handle\<close> does
  not depend on the amount it starts with, as long as it is enough.
\<close>

lemma run_agree:
  assumes agree: "\<And>sty q s. length (queue s) \<le> n \<Longrightarrow> nxt sty q s = nxt' sty q s"
    and ret: "\<And>sty q s. length (queue s) \<le> n \<Longrightarrow>
                \<exists>res s' evs. nxt sty q s = Some (res, s') \<and> step s evs s'"
  shows "length (queue s) \<le> n \<Longrightarrow> run nxt p s = run nxt' p s"
proof (induction p arbitrary: s)
  case (Next sty q k)
  from ret [OF Next.prems, of sty q] obtain res s1 evs where
    a: "nxt sty q s = Some (res, s1)" and b: "step s evs s1" by blast
  have len: "length (queue s1) \<le> n" using step_length [OF b] Next.prems by simp
  have a': "nxt' sty q s = Some (res, s1)" using a agree [OF Next.prems, of sty q] by simp
  from Next.IH [OF _ len, of "k res"] show ?case using a a' by simp
next
  case (Register u p)
  have "length (queue (addMiddleware u s)) \<le> n"
    using Register.prems by (simp add: addMiddleware_def)
  from Register.IH(2) [OF this] show ?case by simp
qed simp_all

lemma handleRequest_Suc_fuel:
  "length (queue s) \<le> fuel \<Longrightarrow> handleRequest (Suc fuel) q s = handleRequest fuel q s"
proof (induction fuel arbitrary: q s)
  case 0
  then show ?case by simp
next
  case (Suc fuel)
  show ?case
  proof (cases "queue s")
    case Nil
    then show ?thesis by simp
  next
    case (Cons u rest)
    let ?s1 = "s\<lparr>queue := rest, trace := trace s @ [Dispatched q (Some (uid u))]\<rparr>"
    have len: "length (queue ?s1) \<le> fuel" using Suc.prems Cons by simp
    have "run (createRequestHandler (handleRequest (Suc fuel))) (process u q) ?s1
        = run (createRequestHandler (handleRequest fuel)) (process u q) ?s1"
    proof (rule run_agree [where n = fuel, OF _ _ len])
      fix sty q and s :: "('a, 'b) RequestHandler"
      assume l: "length (queue s) \<le> fuel"
      then show "createRequestHandler (handleRequest (Suc fuel)) sty q s
          = createRequestHandler (handleRequest fuel) sty q s"
        unfolding createRequestHandler_any by (rule Suc.IH)
      from l have "length (queue s) \<le> Suc fuel" by simp
      then show "\<exists>res s' evs. createRequestHandler (handleRequest (Suc fuel)) sty q s = Some (res, s')
          \<and> step s evs s'"
        unfolding createRequestHandler_any by (rule handleRequest_step)
    qed
    then show ?thesis using Cons by simp
  qed
qed

lemma handleRequest_more_fuel:
  "length (queue s) \<le> fuel \<Longrightarrow> handleRequest (fuel + extra) q s = handleRequest fuel q s"
proof (induction extra)
  case 0
  show ?case by simp
next
  case (Suc extra)
  have "length (queue s) \<le> fuel + extra" using Suc.prems by simp
  from handleRequest_Suc_fuel [OF this] Suc show ?case by simp
qed

lemma handle_any_fuel:
  "length (middleware s) \<le> fuel \<Longrightarrow>
   handleRequest fuel request (s\<lparr>queue := middleware s\<rparr>) = handle request s"
proof -
  assume "length (middleware s) \<le> fuel"
  then obtain extra where "fuel = length (middleware s) + extra"
    using le_Suc_ex by blast
  then show ?thesis
    unfolding handle_def by (simp add: handleRequest_more_fuel)
qed

subsection \<open>The first action of a unit\<close>

lemma run_first_action:
  "run nxt p s = run nxt (first_action p) (fold addMiddleware (registrations p) s)"
  by (induction p arbitrary: s) simp_all

lemma first_action_cases:
  obtains (Respond) r where "first_action p = Respond r"
  | (Throw) e where "first_action p = Throw e"
  | (Next) sty q k where "first_action p = Next sty q k"
  by (induction p) auto

lemma run_without_next:
  assumes "\<not> calls_next p"
  shows "\<exists>res s' evs. run nxt p s = Some (res, s') \<and> step s evs s' \<and> invoked evs = []
           \<and> requests evs = [] \<and> queue s' = queue s"
proof -
  let ?s = "fold addMiddleware (registrations p) s"
  have st: "step s (map Added (registrations p)) ?s" by (rule step_registrations)
  show ?thesis
  proof (cases p rule: first_action_cases)
    case (Respond r)
    then have "run nxt p s = Some (Inr r, ?s)" by (subst run_first_action) simp
    with st show ?thesis by force
  next
    case (Throw e)
    then have "run nxt p s = Some (Inl e, ?s)" by (subst run_first_action) simp
    with st show ?thesis by force
  next
    case (Next sty q k)
    with assms show ?thesis by (simp add: calls_next_def)
  qed
qed

lemma queue_entered [simp]: "queue (entered u q rest s) = rest"
  by (simp add: entered_def)

lemma step_entered:
  "queue s = u # rest \<Longrightarrow>
   step s (Dispatched q (Some (uid u)) # map Added (registrations (process u q))) (entered u q rest s)"
  unfolding entered_def
  using step_trans [OF step_shift step_registrations] by fastforce

lemma handleRequest_unfold:
  "queue s = u # rest \<Longrightarrow>
   handleRequest (Suc f) q s = run (createRequestHandler (handleRequest f)) (first_action (process u q)) (entered u q rest s)"
  unfolding entered_def
  by (simp add: run_first_action [symmetric])

lemma run_handleRequest_step:
  "length (queue s) \<le> f \<Longrightarrow> \<exists>res s' evs. run (createRequestHandler (handleRequest f)) p s = Some (res, s') \<and> step s evs s'"
proof (rule run_step [where n = f])
  fix sty q and s :: "('a, 'b) RequestHandler"
  assume "length (queue s) \<le> f"
  then show "\<exists>res s' evs. createRequestHandler (handleRequest f) sty q s = Some (res, s') \<and> step s evs s'"
    unfolding createRequestHandler_any by (rule handleRequest_step)
qed

subsection \<open>Chains of units\<close>

text \<open>
  A chain stops at the first unit that settles without calling its next-handler,
  when the units before it call theirs once; a chain of units that call their
  next-handler reaches the unit behind them; and a failure passes through units
  that have no \<open>catch\<close>.
\<close>

lemma handleRequest_stops:
  assumes pre: "\<forall>u\<in>set pre. \<forall>x. calls_next_once (process u x)"
    and t: "\<forall>x. \<not> calls_next (process t x)"
  shows "queue s = pre @ t # post \<Longrightarrow> length (queue s) \<le> fuel \<Longrightarrow>
         \<exists>res s' evs. handleRequest fuel q s = Some (res, s') \<and> step s evs s' \<and>
           invoked evs = map uid pre @ [uid t] \<and> queue s' = post"
  using pre
proof (induction pre arbitrary: s fuel q)
  case Nil
  then obtain f where fuel: "fuel = Suc f" by (cases fuel) auto
  from Nil have qs: "queue s = t # post" by simp
  let ?s1 = "s\<lparr>queue := post, trace := trace s @ [Dispatched q (Some (uid t))]\<rparr>"
  from run_without_next [OF t [rule_format], of "createRequestHandler (handleRequest f)" q ?s1]
  obtain res s' evs where
    a: "run (createRequestHandler (handleRequest f)) (process t q) ?s1 = Some (res, s')"
    and b: "step ?s1 evs s'" and c: "invoked evs = []" and d: "queue s' = queue ?s1" by blast
  from a qs fuel have "handleRequest fuel q s = Some (res, s')" by simp
  moreover from step_trans [OF step_shift [OF qs] b]
  have "step s ([Dispatched q (Some (uid t))] @ evs) s'" .
  moreover have "invoked ([Dispatched q (Some (uid t))] @ evs) = [uid t]" using c by simp
  ultimately show ?case using d by force
next
  case (Cons u pre)
  then obtain f where fuel: "fuel = Suc f" by (cases fuel) auto
  from Cons.prems have qs: "queue s = u # (pre @ t # post)" by simp
  let ?s2 = "entered u q (pre @ t # post) s"
  from Cons.prems have "calls_next_once (process u q)" by simp
  then obtain sty q' k where
    fa: "first_action (process u q) = Next sty q' k" and k: "\<And>res. \<not> calls_next (k res)"
    by (cases "process u q" rule: first_action_cases) (auto simp: calls_next_once_def)
  have "length (queue ?s2) \<le> f" using Cons.prems fuel by simp
  from Cons.IH [OF _ this, of q'] Cons.prems obtain res s3 e3 where
    a: "handleRequest f q' ?s2 = Some (res, s3)" and b: "step ?s2 e3 s3"
    and c: "invoked e3 = map uid pre @ [uid t]" and d: "queue s3 = post" by auto
  from run_without_next [OF k, of "createRequestHandler (handleRequest f)" res s3] obtain res' s4 e4 where
    a': "run (createRequestHandler (handleRequest f)) (k res) s3 = Some (res', s4)" and b': "step s3 e4 s4"
    and c': "invoked e4 = []" and d': "queue s4 = queue s3" by blast
  have "handleRequest fuel q s = Some (res', s4)"
    unfolding fuel handleRequest_unfold [OF qs] fa using a a' by simp
  moreover from step_trans [OF step_trans [OF step_entered [OF qs] b] b']
  have "step s ((Dispatched q (Some (uid u)) # map Added (registrations (process u q)) @ e3) @ e4) s4"
    by simp
  moreover have "invoked ((Dispatched q (Some (uid u)) # map Added (registrations (process u q)) @ e3) @ e4)
      = map uid (u # pre) @ [uid t]"
    using c c' by (simp add: invoked_append)
  ultimately show ?case using d d' by force
qed

lemma calls_next_first_action:
  assumes "calls_next p"
  obtains sty q k where "first_action p = Next sty q k"
  using assms by (cases p rule: first_action_cases) (auto simp: calls_next_def)

lemma handleRequest_reaches:
  assumes pre: "\<forall>u\<in>set pre. \<forall>x. calls_next (process u x)"
  shows "queue s = pre @ r # rest \<Longrightarrow> length (queue s) \<le> fuel \<Longrightarrow>
         \<exists>res s' evs more. handleRequest fuel q s = Some (res, s') \<and> step s evs s' \<and>
           invoked evs = map uid pre @ uid r # more"
  using pre
proof (induction pre arbitrary: s fuel q)
  case Nil
  then obtain f where fuel: "fuel = Suc f" by (cases fuel) auto
  from Nil have qs: "queue s = r # rest" by simp
  let ?s1 = "s\<lparr>queue := rest, trace := trace s @ [Dispatched q (Some (uid r))]\<rparr>"
  have "length (queue ?s1) \<le> f" using Nil.prems fuel by simp
  from run_handleRequest_step [OF this, of "process r q"] obtain res s' evs where
    a: "run (createRequestHandler (handleRequest f)) (process r q) ?s1 = Some (res, s')"
    and b: "step ?s1 evs s'" by blast
  from a qs fuel have "handleRequest fuel q s = Some (res, s')" by simp
  moreover from step_trans [OF step_shift [OF qs] b]
  have "step s ([Dispatched q (Some (uid r))] @ evs) s'" .
  moreover have "invoked ([Dispatched q (Some (uid r))] @ evs) = map uid [] @ uid r # invoked evs"
    by simp
  ultimately show ?case by blast
next
  case (Cons u pre)
  then obtain f where fuel: "fuel = Suc f" by (cases fuel) auto
  from Cons.prems have qs: "queue s = u # (pre @ r # rest)" by simp
  let ?s2 = "entered u q (pre @ r # rest) s"
  from Cons.prems have "calls_next (process u q)" by simp
  then obtain sty q' k where fa: "first_action (process u q) = Next sty q' k"
    by (rule calls_next_first_action)
  have "length (queue ?s2) \<le> f" using Cons.prems fuel by simp
  from Cons.IH [OF _ this, of q'] Cons.prems obtain res s3 e3 more where
    a: "handleRequest f q' ?s2 = Some (res, s3)" and b: "step ?s2 e3 s3"
    and c: "invoked e3 = map uid pre @ uid r # more" by auto
  from b have "length (queue s3) \<le> f"
    using step_length [OF b] \<open>length (queue ?s2) \<le> f\<close> by simp
  from run_handleRequest_step [OF this, of "k res"] obtain res' s4 e4 where
    a': "run (createRequestHandler (handleRequest f)) (k res) s3 = Some (res', s4)"
    and b': "step s3 e4 s4" by blast
  have "handleRequest fuel q s = Some (res', s4)"
    unfolding fuel handleRequest_unfold [OF qs] fa using a a' by simp
  moreover from step_trans [OF step_trans [OF step_entered [OF qs] b] b']
  have "step s ((Dispatched q (Some (uid u)) # map Added (registrations (process u q)) @ e3) @ e4) s4"
    by simp
  moreover have "invoked ((Dispatched q (Some (uid u)) # map Added (registrations (process u q)) @ e3) @ e4)
      = map uid (u # pre) @ uid r # (more @ invoked e4)"
    using c by (simp add: invoked_append)
  ultimately show ?case by blast
qed

lemma handleRequest_propagates:
  assumes pre: "\<forall>u\<in>set pre. \<forall>x. rethrows (process u x)"
    and rest: "\<And>f q (s :: ('q, 'r) RequestHandler). queue s = rest \<Longrightarrow> length rest \<le> f \<Longrightarrow>
                \<exists>s'. handleRequest f q s = Some (Inl e, s')"
  shows "queue (s :: ('q, 'r) RequestHandler) = pre @ rest \<Longrightarrow> length (queue s) \<le> fuel \<Longrightarrow>
         \<exists>s'. handleRequest fuel q s = Some (Inl e, s')"
  using pre
proof (induction pre arbitrary: s fuel q)
  case Nil
  then show ?case using rest [of s fuel q] by simp
next
  case (Cons u pre)
  then obtain f where fuel: "fuel = Suc f" by (cases fuel) auto
  from Cons.prems have qs: "queue s = u # (pre @ rest)" by simp
  let ?s2 = "entered u q (pre @ rest) s"
  from Cons.prems have "rethrows (process u q)" by simp
  then obtain sty q' k where
    fa: "first_action (process u q) = Next sty q' k" and k: "\<And>e. first_action (k (Inl e)) = Throw e"
    by (cases "process u q" rule: first_action_cases) (auto simp: rethrows_def)
  have "length (queue ?s2) \<le> f" using Cons.prems fuel by simp
  from Cons.IH [OF _ this, of q'] Cons.prems obtain s3 where
    a: "handleRequest f q' ?s2 = Some (Inl e, s3)" by auto
  have "run (createRequestHandler (handleRequest f)) (k (Inl e)) s3
      = Some (Inl e, fold addMiddleware (registrations (k (Inl e))) s3)"
    by (subst run_first_action) (simp add: k)
  then have "handleRequest fuel q s = Some (Inl e, fold addMiddleware (registrations (k (Inl e))) s3)"
    unfolding fuel handleRequest_unfold [OF qs] fa using a by simp
  then show ?case by blast
qed

subsection \<open>The units a chain reaches\<close>

text \<open>
  When the units reached call their next-handler at most once on the request they
  are handed, \<open>handleRequest\<close> invokes exactly the units of \<open>reached\<close>, each on its
  request, and leaves the others in the queue.
\<close>

lemma dispatched_append: "dispatched (xs @ ys) = dispatched xs @ dispatched ys"
  by (induction xs rule: dispatched.induct) simp_all

lemma dispatched_Added [simp]: "dispatched (map Added us) = []"
  by (induction us) simp_all

lemma invoked_dispatched: "invoked evs = map snd (dispatched evs)"
  by (induction evs rule: dispatched.induct) simp_all

lemma run_settles_without_next:
  assumes "\<not> calls_next p"
  shows "\<exists>res. run nxt p s = Some (res, fold addMiddleware (registrations p) s)"
proof (cases p rule: first_action_cases)
  case (Respond r)
  then show ?thesis by (subst run_first_action) simp
next
  case (Throw e)
  then show ?thesis by (subst run_first_action) simp
next
  case (Next sty q k)
  with assms show ?thesis by (simp add: calls_next_def)
qed

lemma handleRequest_reached:
  "queue s = ms \<Longrightarrow> length ms \<le> fuel \<Longrightarrow>
   \<forall>(m, x)\<in>set (reached ms q). at_most_once (process m x) \<Longrightarrow>
   \<exists>res s' evs. handleRequest fuel q s = Some (res, s') \<and> step s evs s' \<and>
     dispatched evs = map (\<lambda>(m, x). (x, uid m)) (reached ms q) \<and>
     queue s' = drop (length (reached ms q)) ms"
proof (induction ms arbitrary: s fuel q)
  case Nil
  then have "handleRequest fuel q s =
      Some (Inl NoMiddlewareAvailable, s\<lparr>trace := trace s @ [Dispatched q None]\<rparr>)"
    by (cases fuel) simp_all
  moreover have "step s [Dispatched q None] (s\<lparr>trace := trace s @ [Dispatched q None]\<rparr>)"
    by (rule step_empty)
  ultimately show ?case using Nil by force
next
  case (Cons u us)
  then obtain f where fuel: "fuel = Suc f" by (cases fuel) auto
  from Cons.prems have qs: "queue s = u # us" by simp
  let ?s2 = "entered u q us s"
  let ?e2 = "Dispatched q (Some (uid u)) # map Added (registrations (process u q))"
  have st2: "step s ?e2 ?s2" by (rule step_entered [OF qs])
  have d2: "dispatched ?e2 = [(q, uid u)]" by simp
  show ?case
  proof (cases "calls_next (process u q)")
    case False
    then have r: "reached (u # us) q = [(u, q)]"
      by (cases "process u q" rule: first_action_cases) (auto simp: calls_next_def)
    from False obtain res where
      "run (createRequestHandler (handleRequest f)) (process u q)
         (s\<lparr>queue := us, trace := trace s @ [Dispatched q (Some (uid u))]\<rparr>) = Some (res, ?s2)"
      unfolding entered_def using run_settles_without_next by blast
    then have "handleRequest fuel q s = Some (res, ?s2)" using qs fuel by simp
    with st2 d2 r show ?thesis by force
  next
    case True
    then obtain sty q' k where fa: "first_action (process u q) = Next sty q' k"
      by (rule calls_next_first_action)
    then have r: "reached (u # us) q = (u, q) # reached us q'" by simp
    from Cons.prems(3) [unfolded r] have "at_most_once (process u q)" by simp
    with fa have k: "\<And>res. \<not> calls_next (k res)" by (simp add: at_most_once_def)
    have len: "length us \<le> f" using Cons.prems fuel by simp
    have rest: "\<forall>(m, x)\<in>set (reached us q'). at_most_once (process m x)"
      using Cons.prems(3) [unfolded r] by simp
    from Cons.IH [OF _ len rest, of ?s2] obtain res s3 e3 where
      a: "handleRequest f q' ?s2 = Some (res, s3)" and b: "step ?s2 e3 s3"
      and c: "dispatched e3 = map (\<lambda>(m, x). (x, uid m)) (reached us q')"
      and d: "queue s3 = drop (length (reached us q')) us" by auto
    let ?s4 = "fold addMiddleware (registrations (k res)) s3"
    from run_settles_without_next [OF k, of "createRequestHandler (handleRequest f)" res s3]
    obtain res' where
      a': "run (createRequestHandler (handleRequest f)) (k res) s3 = Some (res', ?s4)" by blast
    have b': "step s3 (map Added (registrations (k res))) ?s4" by (rule step_registrations)
    have "handleRequest fuel q s = Some (res', ?s4)"
      unfolding fuel handleRequest_unfold [OF qs] fa using a a' by simp
    moreover from step_trans [OF step_trans [OF st2 b] b']
    have "step s ((?e2 @ e3) @ map Added (registrations (k res))) ?s4" .
    moreover have "dispatched ((?e2 @ e3) @ map Added (registrations (k res)))
        = map (\<lambda>(m, x). (x, uid m)) (reached (u # us) q)"
      using c r by (simp add: dispatched_append)
    moreover have "queue ?s4 = drop (length (reached (u # us) q)) (u # us)"
      using d r by simp
    ultimately show ?thesis by blast
  qed
qed

lemma reached_prefix: "map fst (reached ms q) = take (length (reached ms q)) ms"
proof (induction ms arbitrary: q)
  case Nil
  show ?case by simp
next
  case (Cons u us)
  show ?case
    by (cases "process u q" rule: first_action_cases) (simp_all add: Cons.IH)
qed

lemma reached_Nil [simp]: "reached ms q = [] \<longleftrightarrow> ms = []"
  by (cases ms) simp_all

lemma reached_calls_next:
  "Suc i < length (reached ms q) \<Longrightarrow>
   calls_next (process (fst (reached ms q ! i)) (snd (reached ms q ! i)))"
proof (induction ms arbitrary: q i)
  case Nil
  then show ?case by simp
next
  case (Cons u us)
  show ?case
  proof (cases "process u q" rule: first_action_cases)
    case (Next sty q' k)
    show ?thesis
    proof (cases i)
      case 0
      then show ?thesis using Next by (simp add: calls_next_def)
    next
      case (Suc j)
      then have "Suc j < length (reached us q')" using Cons.prems Next by simp
      from Cons.IH [OF this] show ?thesis using Next Suc by simp
    qed
  qed (use Cons.prems in simp_all)
qed

lemma reached_stops:
  "ms \<noteq> [] \<Longrightarrow> length (reached ms q) < length ms \<Longrightarrow>
   \<not> calls_next (process (fst (last (reached ms q))) (snd (last (reached ms q))))"
proof (induction ms arbitrary: q)
  case Nil
  then show ?case by simp
next
  case (Cons u us)
  show ?case
  proof (cases "process u q" rule: first_action_cases)
    case (Next sty q' k)
    from Cons.prems Next have less: "length (reached us q') < length us" by simp
    then have "us \<noteq> []" by auto
    from Cons.IH [OF this less] show ?thesis using Next \<open>us \<noteq> []\<close> by simp
  qed (simp_all add: calls_next_def)
qed


lemma handle_reached:
  assumes "\<forall>(m, x)\<in>set (reached (middleware s) request). at_most_once (process m x)"
  shows "\<exists>res s' evs. handle request s = Some (res, s') \<and> trace s' = trace s @ evs \<and>
     dispatched evs = map (\<lambda>(m, x). (x, uid m)) (reached (middleware s) request) \<and>
     invoked evs = map uid (take (length (reached (middleware s) request)) (middleware s)) \<and>
     queue s' = drop (length (reached (middleware s) request)) (middleware s)"
proof -
  have "queue (s\<lparr>queue := middleware s\<rparr>) = middleware s" by simp
  from handleRequest_reached [OF this _ assms, of "length (middleware s)"]
  obtain res s' evs where
    a: "handle request s = Some (res, s')" and b: "step (s\<lparr>queue := middleware s\<rparr>) evs s'"
    and c: "dispatched evs = map (\<lambda>(m, x). (x, uid m)) (reached (middleware s) request)"
    and d: "queue s' = drop (length (reached (middleware s) request)) (middleware s)"
    unfolding handle_def by auto
  have "invoked evs = map uid (map fst (reached (middleware s) request))"
    unfolding invoked_dispatched c by (simp add: case_prod_beta comp_def)
  then have "invoked evs = map uid (take (length (reached (middleware s) request)) (middleware s))"
    by (simp only: reached_prefix)
  with a b c d show ?thesis unfolding step_def by auto
qed

subsection \<open>Requests passed on\<close>

lemma forwarding_step: "step s evs s' \<Longrightarrow> forwarding s \<Longrightarrow> forwarding s'"
  using step_queue_subset unfolding forwarding_def by blast

lemma forwarding_addMiddleware [simp]: "forwarding (addMiddleware u s) = forwarding s"
  by (simp add: forwarding_def addMiddleware_def)

lemma run_forwards:
  assumes nxt: "\<And>sty s. length (queue s) \<le> n \<Longrightarrow> forwarding s \<Longrightarrow>
      \<exists>res s' evs. nxt sty x s = Some (res, s') \<and> step s evs s' \<and> set (requests evs) \<subseteq> {x}"
  shows "only_forwards x p \<Longrightarrow> length (queue s) \<le> n \<Longrightarrow> forwarding s \<Longrightarrow>
         \<exists>res s' evs. run nxt p s = Some (res, s') \<and> step s evs s' \<and> set (requests evs) \<subseteq> {x}"
proof (induction p arbitrary: s)
  case (Respond r)
  show ?case using step_refl [of s] by force
next
  case (Throw e)
  show ?case using step_refl [of s] by force
next
  case (Next sty q k)
  then have qx: "q = x" and kx: "\<And>res. only_forwards x (k res)" by simp_all
  from nxt [OF Next.prems(2,3), of sty] obtain res s1 e1 where
    a: "nxt sty x s = Some (res, s1)" and b: "step s e1 s1" and c: "set (requests e1) \<subseteq> {x}"
    by blast
  have len: "length (queue s1) \<le> n" using step_length [OF b] Next.prems(2) by simp
  have fw: "forwarding s1" using forwarding_step [OF b Next.prems(3)] .
  from Next.IH [OF _ kx [of res] len fw] obtain res2 s2 e2 where
    a': "run nxt (k res) s1 = Some (res2, s2)" and b': "step s1 e2 s2"
    and c': "set (requests e2) \<subseteq> {x}" by auto
  from a a' qx have "run nxt (Next sty q k) s = Some (res2, s2)" by simp
  moreover have "set (requests (e1 @ e2)) \<subseteq> {x}" using c c' by (simp add: requests_append)
  ultimately show ?case using step_trans [OF b b'] by blast
next
  case (Register u p)
  have "length (queue (addMiddleware u s)) \<le> n" using Register.prems(2) by (simp add: addMiddleware_def)
  moreover have "forwarding (addMiddleware u s)" using Register.prems(3) by simp
  moreover have "only_forwards x p" using Register.prems(1) by simp
  ultimately obtain res s' evs where
    a: "run nxt p (addMiddleware u s) = Some (res, s')" and b: "step (addMiddleware u s) evs s'"
    and c: "set (requests evs) \<subseteq> {x}" using Register.IH(2) by blast
  from a have "run nxt (Register u p) s = Some (res, s')" by simp
  moreover have "set (requests ([Added u] @ evs)) \<subseteq> {x}" using c by simp
  ultimately show ?case using step_trans [OF step_add b] by blast
qed

lemma handleRequest_forwards:
  "length (queue s) \<le> fuel \<Longrightarrow> forwarding s \<Longrightarrow>
   \<exists>res s' evs. handleRequest fuel x s = Some (res, s') \<and> step s evs s' \<and> set (requests evs) \<subseteq> {x}"
proof (induction fuel arbitrary: x s)
  case 0
  then show ?case using step_empty [of s x] by force
next
  case (Suc fuel)
  show ?case
  proof (cases "queue s")
    case Nil
    then show ?thesis using step_empty [of s x] by force
  next
    case (Cons u rest)
    let ?s1 = "s\<lparr>queue := rest, trace := trace s @ [Dispatched x (Some (uid u))]\<rparr>"
    have len: "length (queue ?s1) \<le> fuel" using Suc.prems Cons by simp
    have fw: "forwarding ?s1" using Suc.prems(2) Cons by (simp add: forwarding_def)
    have p: "only_forwards x (process u x)" using Suc.prems(2) Cons by (simp add: forwarding_def)
    have "\<exists>res s' evs. run (createRequestHandler (handleRequest fuel)) (process u x) ?s1 = Some (res, s')
        \<and> step ?s1 evs s' \<and> set (requests evs) \<subseteq> {x}"
    proof (rule run_forwards [where n = fuel, OF _ p len fw])
      fix sty and s :: "('a, 'b) RequestHandler"
      assume "length (queue s) \<le> fuel" "forwarding s"
      then show "\<exists>res s' evs. createRequestHandler (handleRequest fuel) sty x s = Some (res, s')
          \<and> step s evs s' \<and> set (requests evs) \<subseteq> {x}"
        unfolding createRequestHandler_any by (rule Suc.IH)
    qed
    then obtain res s' evs where
      a: "run (createRequestHandler (handleRequest fuel)) (process u x) ?s1 = Some (res, s')"
      and b: "step ?s1 evs s'" and c: "set (requests evs) \<subseteq> {x}" by blast
    from a Cons have "handleRequest (Suc fuel) x s = Some (res, s')" by simp
    moreover have "set (requests ([Dispatched x (Some (uid u))] @ evs)) \<subseteq> {x}" using c by simp
    ultimately show ?thesis using step_trans [OF step_shift [OF Cons] b] by blast
  qed
qed

subsection \<open>The stored list\<close>

lemma quiet_step: "step s evs s' \<Longrightarrow> quiet s \<Longrightarrow> quiet s'"
  using step_queue_subset unfolding quiet_def by blast

lemma run_quiet:
  assumes nxt: "\<And>sty q s. length (queue s) \<le> n \<Longrightarrow> quiet s \<Longrightarrow>
      \<exists>res s' evs. nxt sty q s = Some (res, s') \<and> step s evs s' \<and> added evs = []"
  shows "never_registers p \<Longrightarrow> length (queue s) \<le> n \<Longrightarrow> quiet s \<Longrightarrow>
         \<exists>res s' evs. run nxt p s = Some (res, s') \<and> step s evs s' \<and> added evs = []"
proof (induction p arbitrary: s)
  case (Respond r)
  show ?case using step_refl [of s] by force
next
  case (Throw e)
  show ?case using step_refl [of s] by force
next
  case (Next sty q k)
  then have kq: "\<And>res. never_registers (k res)" by simp
  from nxt [OF Next.prems(2,3), of sty q] obtain res s1 e1 where
    a: "nxt sty q s = Some (res, s1)" and b: "step s e1 s1" and c: "added e1 = []"
    by blast
  have len: "length (queue s1) \<le> n" using step_length [OF b] Next.prems(2) by simp
  have qu: "quiet s1" using quiet_step [OF b Next.prems(3)] .
  from Next.IH [OF _ kq [of res] len qu] obtain res2 s2 e2 where
    a': "run nxt (k res) s1 = Some (res2, s2)" and b': "step s1 e2 s2"
    and c': "added e2 = []" by auto
  from a a' have "run nxt (Next sty q k) s = Some (res2, s2)" by simp
  moreover have "added (e1 @ e2) = []" using c c' by (simp add: added_append)
  ultimately show ?case using step_trans [OF b b'] by blast
next
  case (Register u p)
  then show ?case by simp
qed

lemma handleRequest_quiet:
  "length (queue s) \<le> fuel \<Longrightarrow> quiet s \<Longrightarrow>
   \<exists>res s' evs. handleRequest fuel q s = Some (res, s') \<and> step s evs s' \<and> added evs = []"
proof (induction fuel arbitrary: q s)
  case 0
  then show ?case using step_empty [of s q] by force
next
  case (Suc fuel)
  show ?case
  proof (cases "queue s")
    case Nil
    then show ?thesis using step_empty [of s q] by force
  next
    case (Cons u rest)
    let ?s1 = "s\<lparr>queue := rest, trace := trace s @ [Dispatched q (Some (uid u))]\<rparr>"
    have len: "length (queue ?s1) \<le> fuel" using Suc.prems Cons by simp
    have qu: "quiet ?s1" using Suc.prems(2) Cons by (simp add: quiet_def)
    have p: "never_registers (process u q)" using Suc.prems(2) Cons by (simp add: quiet_def)
    have "\<exists>res s' evs. run (createRequestHandler (handleRequest fuel)) (process u q) ?s1 = Some (res, s')
        \<and> step ?s1 evs s' \<and> added evs = []"
    proof (rule run_quiet [where n = fuel, OF _ p len qu])
      fix sty q and s :: "('a, 'b) RequestHandler"
      assume "length (queue s) \<le> fuel" "quiet s"
      then show "\<exists>res s' evs. createRequestHandler (handleRequest fuel) sty q s = Some (res, s')
          \<and> step s evs s' \<and> added evs = []"
        unfolding createRequestHandler_any by (rule Suc.IH)
    qed
    then obtain res s' evs where
      a: "run (createRequestHandler (handleRequest fuel)) (process u q) ?s1 = Some (res, s')"
      and b: "step ?s1 evs s'" and c: "added evs = []" by blast
    from a Cons have "handleRequest (Suc fuel) q s = Some (res, s')" by simp
    moreover have "added ([Dispatched q (Some (uid u))] @ evs) = []" using c by simp
    ultimately show ?thesis using step_trans [OF step_shift [OF Cons] b] by blast
  qed
qed

lemma handle_trace:
  "\<exists>res s' evs shifted. handle q s = Some (res, s') \<and> trace s' = trace s @ evs \<and>
     middleware s' = middleware s @ added evs \<and> middleware s = shifted @ queue s' \<and>
     invoked evs = map uid shifted"
  using handle_step [of q s] unfolding step_def by auto

lemma handle_quiet:
  assumes "\<forall>u\<in>set (middleware s). \<forall>x. never_registers (process u x)"
  shows "\<exists>res s' evs. handle q s = Some (res, s') \<and> trace s' = trace s @ evs \<and> added evs = [] \<and>
     middleware s' = middleware s"
proof -
  have "quiet (s\<lparr>queue := middleware s\<rparr>)" using assms by (simp add: quiet_def)
  from handleRequest_quiet [OF _ this, of "length (middleware s)" q]
  show ?thesis unfolding handle_def step_def by auto
qed

lemma handle_all_trace:
  "\<exists>s' evs. handle_all qs s = Some s' \<and> trace s' = trace s @ evs \<and>
     middleware s' = middleware s @ added evs"
proof (induction qs arbitrary: s)
  case Nil
  show ?case by simp
next
  case (Cons q qs)
  from handle_trace [of q s] obtain res s1 e1 where
    a: "handle q s = Some (res, s1)" and b: "trace s1 = trace s @ e1"
    and c: "middleware s1 = middleware s @ added e1" by blast
  from Cons [of s1] obtain s2 e2 where
    a': "handle_all qs s1 = Some s2" and b': "trace s2 = trace s1 @ e2"
    and c': "middleware s2 = middleware s1 @ added e2" by blast
  have "handle_all (q # qs) s = Some s2" using a a' by simp
  moreover have "trace s2 = trace s @ (e1 @ e2)" using b b' by simp
  moreover have "middleware s2 = middleware s @ added (e1 @ e2)" using c c' by (simp add: added_append)
  ultimately show ?case by blast
qed

lemma handle_all_quiet:
  "\<forall>u\<in>set (middleware s). \<forall>x. never_registers (process u x) \<Longrightarrow>
   \<exists>s'. handle_all qs s = Some s' \<and> middleware s' = middleware s"
proof (induction qs arbitrary: s)
  case Nil
  show ?case by simp
next
  case (Cons q qs)
  from handle_quiet [OF Cons.prems, of q] obtain res s1 where
    a: "handle q s = Some (res, s1)" and c: "middleware s1 = middleware s" by blast
  from Cons.IH [of s1] Cons.prems c obtain s2 where
    a': "handle_all qs s1 = Some s2" and c': "middleware s2 = middleware s1" by auto
  show ?case using a a' c c' by simp
qed

lemma handle_first:
  assumes "middleware s = u # rest"
  shows "\<exists>res s' evs shifted. handle q s = Some (res, s') \<and>
     trace s' = trace s @ Dispatched q (Some (uid u)) # evs \<and>
     rest = shifted @ queue s' \<and> invoked evs = map uid shifted"
proof -
  let ?s0 = "s\<lparr>queue := middleware s\<rparr>"
  let ?s1 = "?s0\<lparr>queue := rest, trace := trace ?s0 @ [Dispatched q (Some (uid u))]\<rparr>"
  have "length (queue ?s1) \<le> length rest" by simp
  from run_handleRequest_step [OF this, of "process u q"] obtain res s' evs where
    a: "run (createRequestHandler (handleRequest (length rest))) (process u q) ?s1 = Some (res, s')"
    and b: "step ?s1 evs s'" by blast
  from a assms have "handle q s = Some (res, s')" by (simp add: handle_def)
  with b show ?thesis unfolding step_def by auto
qed

subsection \<open>Call styles\<close>

lemma run_restyle:
  "run (createRequestHandler h) (restyle sty p) s = run (createRequestHandler h) p s"
proof (induction p arbitrary: s)
  case (Next sty0 q k)
  show ?case
  proof (cases "h q s")
    case None
    then show ?thesis by simp
  next
    case (Some a)
    obtain res s1 where "a = (res, s1)" by (cases a)
    with Some Next.IH [of "k res" s1] show ?thesis by simp
  qed
qed simp_all

lemma run_pass_through:
  "run nxt (case res of Inl e \<Rightarrow> Throw e | Inr r \<Rightarrow> Respond r) s = Some (res, s)"
  by (cases res) simp_all

section \<open>Lemmas on the server\<close>

declare with_raw_headers.simps [simp del]

lemma pairs_drop:
  assumes "i < length raw"
  shows "pairs (drop i raw) =
    (raw ! i, if i + 1 < length raw then Some (raw ! (i + 1)) else None) # pairs (drop (i + 2) raw)"
proof (cases "i + 1 < length raw")
  case True
  have "drop i raw = raw ! i # raw ! (i + 1) # drop (i + 2) raw"
    using assms True by (simp add: Cons_nth_drop_Suc)
  then show ?thesis using True by simp
next
  case False
  with assms have "drop i raw = [raw ! i]" and "drop (i + 2) raw = []"
    by (simp_all add: Cons_nth_drop_Suc [symmetric])
  then show ?thesis using False by simp
qed

lemma with_raw_headers_foldl:
  "with_raw_headers wh raw i request =
     foldl (\<lambda>r (name, v). wh r name v) request (pairs (drop i raw))"
proof (induction wh raw i request rule: with_raw_headers.induct)
  case (1 wh raw i request)
  show ?case
  proof (cases "i < length raw")
    case True
    then show ?thesis
      using "1.IH" [OF True] by (subst with_raw_headers.simps) (simp add: pairs_drop)
  next
    case False
    then show ?thesis by (subst with_raw_headers.simps) simp
  qed
qed

lemma to_request_foldl:
  "to_request srv req =
     foldl (\<lambda>r (name, v). withHeader (requestFactory srv) r name v)
       (withBody (requestFactory srv)
          (createRequest (requestFactory srv) (method req)
             (urlScheme srv @ ''://'' @ (case host req of None \<Rightarrow> ''undefined'' | Some h \<Rightarrow> h) @ url req))
          req)
       (pairs (rawHeaders req))"
  by (simp add: to_request_def with_raw_headers_foldl)

lemma map_of_add_value:
  "map_of (add_value name v hs) k =
     (if k = name then Some ((case map_of hs name of None \<Rightarrow> [] | Some vs \<Rightarrow> vs) @ [v])
      else map_of hs k)"
  by (induction name v hs rule: add_value.induct) auto

lemma header_values_withHeader:
  "header_values (spec_withHeader r name v) k =
     (if k = name then header_values r name @ [v] else header_values r k)"
  by (simp add: header_values_def spec_withHeader_def map_of_add_value)

lemma header_values_foldl:
  "header_values (foldl (\<lambda>r (name, v). spec_withHeader r name v) r ps) k =
     header_values r k @ map snd (filter (\<lambda>(name, v). name = k) ps)"
  by (induction ps arbitrary: r) (auto simp: header_values_withHeader)

lemma set_property_fresh:
  "name \<notin> fst ` set ps \<Longrightarrow> set_property name v ps = ps @ [(name, v)]"
  by (induction name v ps rule: set_property.induct) auto

lemma head_fields_foldl:
  "distinct (map fst acc @ map fst entries) \<Longrightarrow>
   foldl (\<lambda>hs (name, values). set_property name (join '','' values) hs) acc entries =
     acc @ map (\<lambda>(name, values). (name, join '','' values)) entries"
proof (induction entries arbitrary: acc)
  case Nil
  show ?case by simp
next
  case (Cons entry entries)
  obtain name vs where entry: "entry = (name, vs)" by (cases entry)
  have fresh: "name \<notin> fst ` set acc" using Cons.prems entry by auto
  have "distinct (map fst (acc @ [(name, join '','' vs)]) @ map fst entries)"
    using Cons.prems entry by auto
  from Cons.IH [OF this] show ?case
    using entry by (simp add: set_property_fresh [OF fresh])
qed

lemma head_fields_distinct:
  "distinct (map fst entries) \<Longrightarrow>
   head_fields entries = map (\<lambda>(name, values). (name, join '','' values)) entries"
  unfolding head_fields_def using head_fields_foldl [of "[]" entries] by simp

section \<open>The dispatcher\<close>

text \<open>
  C1. Units are invoked in registration order, without a gap and without
  repetition, starting with the first: after a call of \<open>handle\<close> on a non-empty
  list, the units invoked are a non-empty front part of the list, in its order
  (first conjunct; this needs nothing of the units). The dispatch goes on until a
  unit settles without calling its next-handler, and no unit behind that one is
  invoked: when the units reached call their next-handler at most once on the
  request they are handed, as the specification requires of a unit, \<open>handle\<close>
  invokes exactly the units of \<open>reached\<close>, each on its request, and the others stay
  in the queue (second conjunct). \<open>reached\<close> is a front part of the list in its order,
  starts with the first unit on the request given to \<open>handle\<close>, every unit of it
  but the last calls its next-handler on its request, and when units are left
  behind it, its last unit does not (third to sixth conjunct). The last conjunct is
  the case of units that behave alike on every request.
\<close>

theorem handle_invokes_in_registration_order:
  "(middleware s = u # rest \<longrightarrow>
      (\<exists>res s' evs shifted. handle request s = Some (res, s') \<and>
         trace s' = trace s @ evs \<and> middleware s = (u # shifted) @ queue s' \<and>
         invoked evs = map uid (u # shifted))) \<and>
   ((\<forall>(m, x)\<in>set (reached (middleware s) request). at_most_once (process m x)) \<longrightarrow>
      (\<exists>res s' evs. handle request s = Some (res, s') \<and> trace s' = trace s @ evs \<and>
         dispatched evs = map (\<lambda>(m, x). (x, uid m)) (reached (middleware s) request) \<and>
         invoked evs = map uid (take (length (reached (middleware s) request)) (middleware s)) \<and>
         queue s' = drop (length (reached (middleware s) request)) (middleware s))) \<and>
   map fst (reached ms q) = take (length (reached ms q)) ms \<and>
   (ms \<noteq> [] \<longrightarrow> reached ms q \<noteq> [] \<and> snd (hd (reached ms q)) = q) \<and>
   (Suc i < length (reached ms q) \<longrightarrow>
      calls_next (process (fst (reached ms q ! i)) (snd (reached ms q ! i)))) \<and>
   (ms \<noteq> [] \<and> length (reached ms q) < length ms \<longrightarrow>
      \<not> calls_next (process (fst (last (reached ms q))) (snd (last (reached ms q))))) \<and>
   (middleware s = pre @ t # post \<and>
    (\<forall>m\<in>set pre. \<forall>x. calls_next_once (process m x)) \<and>
    (\<forall>x. \<not> calls_next (process t x)) \<longrightarrow>
      (\<exists>res s' evs. handle request s = Some (res, s') \<and> trace s' = trace s @ evs \<and>
         invoked evs = map uid pre @ [uid t] \<and> queue s' = post))"
proof -
  have order: "\<exists>res s' evs shifted. handle request s = Some (res, s') \<and>
         trace s' = trace s @ evs \<and> middleware s = (u # shifted) @ queue s' \<and>
         invoked evs = map uid (u # shifted)"
    if "middleware s = u # rest"
    using handle_first [OF that, of request] that by fastforce
  have head: "reached ms q \<noteq> [] \<and> snd (hd (reached ms q)) = q" if "ms \<noteq> []"
    using that by (cases ms) simp_all
  have split: "\<exists>res s' evs. handle request s = Some (res, s') \<and> trace s' = trace s @ evs \<and>
         invoked evs = map uid pre @ [uid t] \<and> queue s' = post"
    if ms: "middleware s = pre @ t # post"
      and pre: "\<forall>m\<in>set pre. \<forall>x. calls_next_once (process m x)"
      and t: "\<forall>x. \<not> calls_next (process t x)"
  proof -
    have "queue (s\<lparr>queue := middleware s\<rparr>) = pre @ t # post" using ms by simp
    from handleRequest_stops [OF pre t this, of "length (middleware s)" request]
    show ?thesis unfolding handle_def step_def by auto
  qed
  from order handle_reached [of s request] reached_prefix [of ms q] head
    reached_calls_next [of i ms q] reached_stops [of ms q] split
  show ?thesis by blast
qed

theorem handle_invokes_in_registration_order_witness:
  "reached [gate 0, answers 1 200, answers 2 404] ''GET /open'' =
     [(gate 0, ''GET /open''), (answers 1 200, ''GET /open'')] \<and>
   at_most_once (process (gate 0) ''GET /open'') \<and>
   at_most_once (process (answers 1 200) ''GET /open'') \<and>
   handle ''GET /open''
     \<lparr>middleware = [gate 0, answers 1 200, answers 2 404], queue = [], trace = []\<rparr> =
   Some (Inr 200,
     \<lparr>middleware = [gate 0, answers 1 200, answers 2 404], queue = [answers 2 404],
      trace = [Dispatched ''GET /open'' (Some 0), Dispatched ''GET /open'' (Some 1)]\<rparr>) \<and>
   reached [gate 0, answers 1 200, answers 2 404] ''GET /shut'' = [(gate 0, ''GET /shut'')] \<and>
   at_most_once (process (gate 0) ''GET /shut'') \<and>
   handle ''GET /shut''
     \<lparr>middleware = [gate 0, answers 1 200, answers 2 404], queue = [], trace = []\<rparr> =
   Some (Inr 403,
     \<lparr>middleware = [gate 0, answers 1 200, answers 2 404],
      queue = [answers 1 200, answers 2 404],
      trace = [Dispatched ''GET /shut'' (Some 0)]\<rparr>) \<and>
   (\<forall>x. calls_next_once (process (passes 0) x)) \<and>
   (\<forall>x. calls_next_once (process (redirects 1 ''/new'') x)) \<and>
   (\<forall>x. \<not> calls_next (process (answers 2 200) x)) \<and>
   handle ''GET /''
     \<lparr>middleware = [passes 0, redirects 1 ''/new''] @ answers 2 200 # [fails 3 ''unreachable''],
      queue = [], trace = []\<rparr> =
   Some (Inr 200,
     \<lparr>middleware = [passes 0, redirects 1 ''/new'', answers 2 200, fails 3 ''unreachable''],
      queue = [fails 3 ''unreachable''],
      trace = [Dispatched ''GET /'' (Some 0), Dispatched ''GET /'' (Some 1),
               Dispatched ''/new'' (Some 2)]\<rparr>) \<and>
   invoked [Dispatched ''GET /'' (Some 0), Dispatched ''GET /'' (Some 1),
            Dispatched ''/new'' (Some 2) :: (string, nat) event] = [0, 1, 2]"
  using handle_invokes_in_registration_order
    [where s = "\<lparr>middleware = [gate 0, answers 1 200, answers 2 404], queue = [], trace = []\<rparr>"
       and request = "''GET /open''" and u = "gate 0" and rest = "[answers 1 200, answers 2 404]"
       and ms = "[gate 0, answers 1 200, answers 2 404]" and q = "''GET /open''" and i = 0]
    handle_invokes_in_registration_order
    [where s = "\<lparr>middleware = [gate 0, answers 1 200, answers 2 404], queue = [], trace = []\<rparr>"
       and request = "''GET /shut''" and ms = "[gate 0, answers 1 200, answers 2 404]"
       and q = "''GET /shut''"]
    handle_invokes_in_registration_order
    [where s = "\<lparr>middleware = [passes 0, redirects 1 ''/new''] @ answers 2 200 # [fails 3 ''unreachable''],
                  queue = [], trace = []\<rparr>"
       and request = "''GET /''" and pre = "[passes 0, redirects 1 ''/new'']"
       and t = "answers 2 200" and post = "[fails 3 ''unreachable'']"]
  by (simp add: handle_def uid_def process_def calls_next_once_def calls_next_def at_most_once_def
      gate_def passes_def answers_def redirects_def fails_def split: sum.split)

text \<open>
  The condition on the units is needed. The queue is one array for the whole call
  and the dispatcher does not count the calls of a next-handler, so a unit that
  calls its next-handler a second time, which the specification leaves undefined,
  resumes the dispatch behind the unit that has just responded: below, the unit 1
  responds without calling its next-handler and the unit 2 is invoked after it.
\<close>

lemma second_next_call_reaches_later_unit:
  "process (answers 1 200) ''GET /'' = Respond 200 \<and>
   handle ''GET /''
     \<lparr>middleware = [retries 0, answers 1 200, answers 2 404], queue = [], trace = []\<rparr> =
   Some (Inr 404,
     \<lparr>middleware = [retries 0, answers 1 200, answers 2 404], queue = [],
      trace = [Dispatched ''GET /'' (Some 0), Dispatched ''GET /'' (Some 1),
               Dispatched ''GET /'' (Some 2)]\<rparr>) \<and>
   invoked [Dispatched ''GET /'' (Some 0), Dispatched ''GET /'' (Some 1),
            Dispatched ''GET /'' (Some 2) :: (string, nat) event] = [0, 1, 2] \<and>
   [0, 1, 2] \<noteq> map uid [retries 0, answers 1 200]"
  by (simp add: handle_def uid_def process_def retries_def answers_def)

text \<open>
  C2. A dispatch step that finds its queue empty fails with the error
  \<open>No middleware available to process request\<close>: this holds for
  \<open>handleRequest\<close> on an empty queue, for a unit that calls its next-handler
  when no unit is left (the call settles with that error, which the rest of the
  unit receives), and for \<open>handle\<close> on a dispatcher with no registered
  middleware.
\<close>

theorem empty_queue_fails:
  "(queue s = [] \<longrightarrow>
      handleRequest fuel request s =
        Some (Inl NoMiddlewareAvailable, s\<lparr>trace := trace s @ [Dispatched request None]\<rparr>)) \<and>
   (queue s = [] \<longrightarrow>
      run (createRequestHandler (handleRequest fuel)) (Next sty request k) s =
        run (createRequestHandler (handleRequest fuel)) (k (Inl NoMiddlewareAvailable))
          (s\<lparr>trace := trace s @ [Dispatched request None]\<rparr>)) \<and>
   (middleware s = [] \<longrightarrow>
      handle request s =
        Some (Inl NoMiddlewareAvailable,
              s\<lparr>queue := [], trace := trace s @ [Dispatched request None]\<rparr>))"
proof -
  have a: "queue s = [] \<Longrightarrow> handleRequest fuel request s =
        Some (Inl NoMiddlewareAvailable, s\<lparr>trace := trace s @ [Dispatched request None]\<rparr>)"
    for s :: "('a, 'b) RequestHandler" and fuel
    by (cases fuel) simp_all
  have b: "middleware s = [] \<Longrightarrow> handle request s =
        Some (Inl NoMiddlewareAvailable,
              s\<lparr>queue := [], trace := trace s @ [Dispatched request None]\<rparr>)"
    by (simp add: handle_def)
  show ?thesis using a [of s fuel] b by simp
qed

theorem empty_queue_fails_witness:
  "queue (constructor :: (string, nat) RequestHandler) = [] \<and>
   middleware (constructor :: (string, nat) RequestHandler) = [] \<and>
   handleRequest 3 ''GET /'' (constructor :: (string, nat) RequestHandler) =
     Some (Inl (Error ''No middleware available to process request''),
           \<lparr>middleware = [], queue = [], trace = [Dispatched ''GET /'' None]\<rparr>) \<and>
   run (createRequestHandler (handleRequest 0))
       (Next Direct ''GET /'' (\<lambda>res. case res of Inl e \<Rightarrow> Throw e | Inr r \<Rightarrow> Respond r))
       (constructor :: (string, nat) RequestHandler) =
     Some (Inl (Error ''No middleware available to process request''),
           \<lparr>middleware = [], queue = [], trace = [Dispatched ''GET /'' None]\<rparr>) \<and>
   handle ''GET /'' (constructor :: (string, nat) RequestHandler) =
     Some (Inl (Error ''No middleware available to process request''),
           \<lparr>middleware = [], queue = [], trace = [Dispatched ''GET /'' None]\<rparr>)"
  using empty_queue_fails [of "constructor :: (string, nat) RequestHandler" 3 "''GET /''"]
    empty_queue_fails [of "constructor :: (string, nat) RequestHandler" 0 "''GET /''" Direct
      "\<lambda>res. case res of Inl e \<Rightarrow> Throw e | Inr r \<Rightarrow> Respond r"]
  by (simp add: constructor_def NoMiddlewareAvailable_def)

text \<open>
  C4. \<open>handle\<close> works on the list as it is when the call starts. Whatever is
  registered while the call is in flight (the units \<open>added evs\<close>, which are in the
  stored list afterwards), the units the call invokes are a front part of the list
  it started with. A call that starts after a unit \<open>a\<close> was registered does reach
  \<open>a\<close>: when the units registered before \<open>a\<close> all call their next-handler, \<open>a\<close> is
  invoked right after them.
\<close>

theorem handle_snapshot:
  "(\<exists>res s' evs shifted. handle request s = Some (res, s') \<and> trace s' = trace s @ evs \<and>
      middleware s' = middleware s @ added evs \<and>
      middleware s = shifted @ queue s' \<and> invoked evs = map uid shifted) \<and>
   (handle request s = Some (res, s') \<and> middleware s' = middleware s @ a # later \<and>
    (\<forall>m\<in>set (middleware s). \<forall>x. calls_next (process m x)) \<longrightarrow>
      (\<exists>res2 s2 evs2 more. handle request2 s' = Some (res2, s2) \<and> trace s2 = trace s' @ evs2 \<and>
         invoked evs2 = map uid (middleware s) @ uid a # more))"
proof -
  have "\<exists>res2 s2 evs2 more. handle request2 s' = Some (res2, s2) \<and> trace s2 = trace s' @ evs2 \<and>
         invoked evs2 = map uid (middleware s) @ uid a # more"
    if ms: "middleware s' = middleware s @ a # later"
      and pre: "\<forall>m\<in>set (middleware s). \<forall>x. calls_next (process m x)"
  proof -
    have "queue (s'\<lparr>queue := middleware s'\<rparr>) = middleware s @ a # later" using ms by simp
    from handleRequest_reaches [OF pre this, of "length (middleware s')" request2]
    show ?thesis unfolding handle_def step_def by auto
  qed
  with handle_trace [of request s] show ?thesis by blast
qed

theorem handle_snapshot_witness:
  "(\<forall>x. calls_next (process (enrols 0 (answers 1 200)) x)) \<and>
   handle ''GET /'' \<lparr>middleware = [enrols 0 (answers 1 200)], queue = [], trace = []\<rparr> =
   Some (Inl (Error ''No middleware available to process request''),
     \<lparr>middleware = [enrols 0 (answers 1 200)] @ answers 1 200 # [], queue = [],
      trace = [Dispatched ''GET /'' (Some 0), Added (answers 1 200), Dispatched ''GET /'' None]\<rparr>) \<and>
   handle ''GET /again''
     \<lparr>middleware = [enrols 0 (answers 1 200)] @ answers 1 200 # [], queue = [],
      trace = [Dispatched ''GET /'' (Some 0), Added (answers 1 200), Dispatched ''GET /'' None]\<rparr> =
   Some (Inr 200,
     \<lparr>middleware = [enrols 0 (answers 1 200), answers 1 200, answers 1 200], queue = [],
      trace = [Dispatched ''GET /'' (Some 0), Added (answers 1 200), Dispatched ''GET /'' None,
               Dispatched ''GET /again'' (Some 0), Added (answers 1 200),
               Dispatched ''GET /again'' (Some 1)]\<rparr>)"
  using handle_snapshot
    [of "''GET /''" "\<lparr>middleware = [enrols 0 (answers 1 200)], queue = [], trace = []\<rparr>"
        "Inl (Error ''No middleware available to process request'')"
        "\<lparr>middleware = [enrols 0 (answers 1 200)] @ answers 1 200 # [], queue = [],
          trace = [Dispatched ''GET /'' (Some 0), Added (answers 1 200), Dispatched ''GET /'' None]\<rparr>"
        "answers 1 200" "[]" "''GET /again''"]
  by (simp add: handle_def uid_def process_def calls_next_def addMiddleware_def
      NoMiddlewareAvailable_def enrols_def answers_def split: sum.split)

text \<open>
  C5. The request that a unit passes to its next-handler is the request the
  dispatch step behind that call receives: the next unit's \<open>process\<close> is applied
  to it, or the check of the empty queue is reached with it. So when the first unit
  passes on \<open>modified\<close> and the units behind it pass on what they receive, every
  dispatch step after the first, the final check of the empty queue included,
  receives \<open>modified\<close> and not the request given to \<open>handle\<close>.
\<close>

theorem next_delivers_modified_request:
  "(queue s = d # rest \<longrightarrow>
      run (createRequestHandler (handleRequest (Suc fuel))) (Next sty modified k) s =
        (case run (createRequestHandler (handleRequest fuel)) (process d modified)
                (s\<lparr>queue := rest, trace := trace s @ [Dispatched modified (Some (uid d))]\<rparr>) of
           None \<Rightarrow> None
         | Some (res, s') \<Rightarrow> run (createRequestHandler (handleRequest (Suc fuel))) (k res) s')) \<and>
   (queue s = [] \<longrightarrow>
      run (createRequestHandler (handleRequest fuel)) (Next sty modified k) s =
        run (createRequestHandler (handleRequest fuel)) (k (Inl NoMiddlewareAvailable))
          (s\<lparr>trace := trace s @ [Dispatched modified None]\<rparr>)) \<and>
   (middleware s = m # ds \<and> only_forwards modified (process m request) \<and>
    (\<forall>d\<in>set ds. \<forall>y. only_forwards y (process d y)) \<longrightarrow>
      (\<exists>res s' evs n. handle request s = Some (res, s') \<and> trace s' = trace s @ evs \<and>
         requests evs = request # replicate n modified))"
proof -
  have empty: "queue s = [] \<Longrightarrow> handleRequest fuel modified s =
        Some (Inl NoMiddlewareAvailable, s\<lparr>trace := trace s @ [Dispatched modified None]\<rparr>)"
    by (cases fuel) simp_all
  have "\<exists>res s' evs n. handle request s = Some (res, s') \<and> trace s' = trace s @ evs \<and>
         requests evs = request # replicate n modified"
    if ms: "middleware s = m # ds" and m: "only_forwards modified (process m request)"
      and ds: "\<forall>d\<in>set ds. \<forall>y. only_forwards y (process d y)"
  proof -
    let ?s1 = "s\<lparr>queue := ds, trace := trace s @ [Dispatched request (Some (uid m))]\<rparr>"
    have len: "length (queue ?s1) \<le> length ds" by simp
    have fw: "forwarding ?s1" using ds by (simp add: forwarding_def)
    have "\<exists>res s' evs. run (createRequestHandler (handleRequest (length ds))) (process m request) ?s1
        = Some (res, s') \<and> step ?s1 evs s' \<and> set (requests evs) \<subseteq> {modified}"
    proof (rule run_forwards [where n = "length ds", OF _ m len fw])
      fix sty and s :: "('a, 'b) RequestHandler"
      assume "length (queue s) \<le> length ds" "forwarding s"
      then show "\<exists>res s' evs. createRequestHandler (handleRequest (length ds)) sty modified s
          = Some (res, s') \<and> step s evs s' \<and> set (requests evs) \<subseteq> {modified}"
        unfolding createRequestHandler_any by (rule handleRequest_forwards)
    qed
    then obtain res s' evs where
      a: "run (createRequestHandler (handleRequest (length ds))) (process m request) ?s1 = Some (res, s')"
      and b: "step ?s1 evs s'" and c: "set (requests evs) \<subseteq> {modified}" by blast
    from a ms have "handle request s = Some (res, s')" by (simp add: handle_def)
    moreover from b have "trace s' = trace s @ (Dispatched request (Some (uid m)) # evs)"
      by (simp add: step_def)
    moreover from c have "requests evs = replicate (length (requests evs)) modified"
      by (intro replicate_length_same [symmetric]) auto
    then have "requests (Dispatched request (Some (uid m)) # evs)
        = request # replicate (length (requests evs)) modified" by simp
    ultimately show ?thesis by blast
  qed
  then show ?thesis using empty by simp
qed

theorem next_delivers_modified_request_witness:
  "only_forwards ''/new'' (process (redirects 0 ''/new'') ''GET /'') \<and>
   (\<forall>y. only_forwards y (process (passes 1) y)) \<and>
   (\<forall>y. only_forwards y (process (passes 2) y)) \<and>
   handle ''GET /''
     \<lparr>middleware = [redirects 0 ''/new'', passes 1, passes 2], queue = [], trace = []\<rparr> =
   Some (Inl (Error ''No middleware available to process request''),
     \<lparr>middleware = [redirects 0 ''/new'', passes 1, passes 2], queue = [],
      trace = [Dispatched ''GET /'' (Some 0), Dispatched ''/new'' (Some 1),
               Dispatched ''/new'' (Some 2), Dispatched ''/new'' None]\<rparr>) \<and>
   requests [Dispatched ''GET /'' (Some 0), Dispatched ''/new'' (Some 1),
             Dispatched ''/new'' (Some 2), Dispatched ''/new'' None :: (string, nat) event]
     = ''GET /'' # replicate 3 ''/new''"
  using next_delivers_modified_request
    [where s = "\<lparr>middleware = [redirects 0 ''/new'', passes 1, passes 2], queue = [], trace = []\<rparr>"
       and m = "redirects 0 ''/new''" and ds = "[passes 1, passes 2]" and modified = "''/new''"
       and request = "''GET /''"]
  by (simp add: handle_def uid_def process_def NoMiddlewareAvailable_def
      passes_def redirects_def numeral_3_eq_3 split: sum.split)

text \<open>
  C6. The dispatcher passes a failure on as it is. When the \<open>process\<close> method of
  the unit a dispatch step invokes fails with \<open>e\<close>, that step fails with \<open>e\<close>, be
  it the call of a next-handler (in either style) or \<open>handle\<close> itself, and with the
  same state: nothing is caught, wrapped, retried or logged in between. Hence an
  error thrown by a unit anywhere in the chain comes out of \<open>handle\<close> unchanged when
  the units before it have no \<open>catch\<close> of their own, and so does the error of the
  empty queue when every unit calls its next-handler.
\<close>

theorem errors_propagate_unmodified:
  "(queue s = u # rest \<and>
    run (createRequestHandler (handleRequest fuel)) (process u request)
      (s\<lparr>queue := rest, trace := trace s @ [Dispatched request (Some (uid u))]\<rparr>) = Some (Inl e, s') \<longrightarrow>
      createRequestHandler (handleRequest (Suc fuel)) sty request s = Some (Inl e, s')) \<and>
   (middleware s = u # rest \<and>
    run (createRequestHandler (handleRequest (length rest))) (process u request)
      (s\<lparr>queue := rest, trace := trace s @ [Dispatched request (Some (uid u))]\<rparr>) = Some (Inl e, s') \<longrightarrow>
      handle request s = Some (Inl e, s')) \<and>
   (middleware s = pre @ t # post \<and>
    (\<forall>m\<in>set pre. \<forall>x. rethrows (process m x)) \<and>
    (\<forall>x. first_action (process t x) = Throw e) \<longrightarrow>
      (\<exists>s'. handle request s = Some (Inl e, s'))) \<and>
   ((\<forall>m\<in>set (middleware s). \<forall>x. rethrows (process m x)) \<longrightarrow>
      (\<exists>s'. handle request s = Some (Inl NoMiddlewareAvailable, s')))"
proof -
  have none: "\<exists>s'. handleRequest f q s = Some (Inl NoMiddlewareAvailable, s')"
    if "queue s = []" for f q and s :: "('a, 'b) RequestHandler"
    using that by (cases f) simp_all
  have thrown: "\<exists>s'. handleRequest f q s = Some (Inl e, s')"
    if t: "\<forall>x. first_action (process t x) = Throw e" and "queue s = t # post" "length (t # post) \<le> f"
    for f q and s :: "('a, 'b) RequestHandler"
  proof -
    from that obtain f' where f: "f = Suc f'" by (cases f) auto
    have "handleRequest (Suc f') q s
        = run (createRequestHandler (handleRequest f')) (first_action (process t q)) (entered t q post s)"
      using that by (intro handleRequest_unfold) simp
    then show ?thesis using t f by simp
  qed
  have layer: "createRequestHandler (handleRequest (Suc fuel)) sty request s = Some (Inl e, s')"
    if "queue s = u # rest"
      "run (createRequestHandler (handleRequest fuel)) (process u request)
         (s\<lparr>queue := rest, trace := trace s @ [Dispatched request (Some (uid u))]\<rparr>) = Some (Inl e, s')"
    using that by simp
  have a: "handle request s = Some (Inl e, s')"
    if "middleware s = u # rest"
      "run (createRequestHandler (handleRequest (length rest))) (process u request)
         (s\<lparr>queue := rest, trace := trace s @ [Dispatched request (Some (uid u))]\<rparr>) = Some (Inl e, s')"
    using that by (simp add: handle_def)
  have b: "\<exists>s'. handle request s = Some (Inl e, s')"
    if ms: "middleware s = pre @ t # post" and pre: "\<forall>m\<in>set pre. \<forall>x. rethrows (process m x)"
      and t: "\<forall>x. first_action (process t x) = Throw e"
    unfolding handle_def
    by (rule handleRequest_propagates [where pre = pre and rest = "t # post", OF pre])
       (use ms thrown [OF t] in simp_all)
  have c: "\<exists>s'. handle request s = Some (Inl NoMiddlewareAvailable, s')"
    if pre: "\<forall>m\<in>set (middleware s). \<forall>x. rethrows (process m x)"
    unfolding handle_def
    by (rule handleRequest_propagates [where pre = "middleware s" and rest = "[]", OF pre])
       (use none in simp_all)
  from layer a b c show ?thesis by blast
qed

theorem errors_propagate_unmodified_witness:
  "(\<forall>x. rethrows (process (passes 0) x)) \<and>
   (\<forall>x. rethrows (process (passes 1) x)) \<and>
   (\<forall>x. first_action (process (fails 2 ''boom'') x) = Throw (Error ''boom'')) \<and>
   handle ''GET /''
     \<lparr>middleware = [passes 0, passes 1] @ fails 2 ''boom'' # [answers 3 200], queue = [], trace = []\<rparr> =
   Some (Inl (Error ''boom''),
     \<lparr>middleware = [passes 0, passes 1, fails 2 ''boom'', answers 3 200], queue = [answers 3 200],
      trace = [Dispatched ''GET /'' (Some 0), Dispatched ''GET /'' (Some 1),
               Dispatched ''GET /'' (Some 2)]\<rparr>) \<and>
   createRequestHandler (handleRequest 1) (Property ''handle'') ''GET /''
     \<lparr>middleware = [fails 2 ''boom''], queue = [fails 2 ''boom''], trace = []\<rparr> =
   Some (Inl (Error ''boom''),
     \<lparr>middleware = [fails 2 ''boom''], queue = [], trace = [Dispatched ''GET /'' (Some 2)]\<rparr>) \<and>
   handle ''GET /'' \<lparr>middleware = [passes 0, passes 1], queue = [], trace = []\<rparr> =
   Some (Inl (Error ''No middleware available to process request''),
     \<lparr>middleware = [passes 0, passes 1], queue = [],
      trace = [Dispatched ''GET /'' (Some 0), Dispatched ''GET /'' (Some 1),
               Dispatched ''GET /'' None]\<rparr>)"
  using errors_propagate_unmodified
    [where s = "\<lparr>middleware = [passes 0, passes 1] @ fails 2 ''boom'' # [answers 3 200],
                  queue = [], trace = []\<rparr>"
       and request = "''GET /''" and e = "Error ''boom''"
       and pre = "[passes 0, passes 1]" and t = "fails 2 ''boom''" and post = "[answers 3 200]"]
    errors_propagate_unmodified
    [where s = "\<lparr>middleware = [fails 2 ''boom''], queue = [fails 2 ''boom''], trace = []\<rparr>"
       and u = "fails 2 ''boom''" and rest = "[]" and fuel = 0 and request = "''GET /''"
       and e = "Error ''boom''" and sty = "Property ''handle''"
       and s' = "\<lparr>middleware = [fails 2 ''boom''], queue = [],
                   trace = [Dispatched ''GET /'' (Some 2)]\<rparr>"]
    errors_propagate_unmodified
    [where s = "\<lparr>middleware = [passes 0, passes 1], queue = [], trace = []\<rparr>"
       and request = "''GET /''"]
  by (simp add: handle_def uid_def process_def rethrows_def NoMiddlewareAvailable_def
      passes_def fails_def answers_def split: sum.split)

text \<open>
  C9. A call to \<open>handle\<close>, with the whole dispatch it triggers, never changes the
  stored middleware list by itself: the copy and the head removals work on the
  queue of the call. After one call, and after any number of calls, the stored list
  is the list before the call followed by exactly the units that \<open>addMiddleware\<close>
  was asked to register meanwhile; when no unit registers anything, it is the same
  list.
\<close>

theorem handle_keeps_middleware:
  "(\<exists>res s' evs. handle request s = Some (res, s') \<and> trace s' = trace s @ evs \<and>
       middleware s' = middleware s @ added evs) \<and>
   (\<exists>s' evs. handle_all rs s = Some s' \<and> trace s' = trace s @ evs \<and>
       middleware s' = middleware s @ added evs) \<and>
   ((\<forall>u\<in>set (middleware s). \<forall>x. never_registers (process u x)) \<longrightarrow>
      (\<exists>res s'. handle request s = Some (res, s') \<and> middleware s' = middleware s) \<and>
      (\<exists>s'. handle_all rs s = Some s' \<and> middleware s' = middleware s))"
proof -
  have "\<exists>res s' evs. handle request s = Some (res, s') \<and> trace s' = trace s @ evs \<and>
       middleware s' = middleware s @ added evs"
    using handle_trace [of request s] by blast
  moreover note handle_all_trace [of rs s]
  moreover have "(\<exists>res s'. handle request s = Some (res, s') \<and> middleware s' = middleware s) \<and>
      (\<exists>s'. handle_all rs s = Some s' \<and> middleware s' = middleware s)"
    if "\<forall>u\<in>set (middleware s). \<forall>x. never_registers (process u x)"
    using handle_quiet [OF that, of request] handle_all_quiet [OF that, of rs] by blast
  ultimately show ?thesis by blast
qed

theorem handle_keeps_middleware_witness:
  "(\<forall>x. never_registers (process (passes 0) x)) \<and>
   (\<forall>x. never_registers (process (answers 1 200) x)) \<and>
   handle ''GET /'' (addMiddleware (answers 1 200) (addMiddleware (passes 0) constructor)) =
     Some (Inr 200,
           \<lparr>middleware = [passes 0, answers 1 200], queue = [],
            trace = [Added (passes 0), Added (answers 1 200),
                     Dispatched ''GET /'' (Some 0), Dispatched ''GET /'' (Some 1)]\<rparr>) \<and>
   map_option middleware
     (handle_all [''GET /'', ''GET /x'']
        (addMiddleware (answers 1 200) (addMiddleware (passes 0) constructor))) =
     Some [passes 0, answers 1 200]"
  using handle_keeps_middleware
    [of "''GET /''" "addMiddleware (answers 1 200) (addMiddleware (passes 0) constructor)"
        "[''GET /'', ''GET /x'']"]
  by (simp add: handle_def addMiddleware_def constructor_def uid_def process_def
      passes_def answers_def split: sum.split)

text \<open>
  C10. The next-handler is a proxy that answers every property access, \<open>handle\<close>
  included, with the dispatch function it wraps (first two conjuncts), and this
  proxy is what \<open>handleRequest\<close> hands to the unit it invokes. So whichever way a
  unit calls the handler it was handed, as a function or through a property, the
  call is the dispatch of the remaining queue on the request passed, and the unit
  goes on with its settled result (third conjunct). A unit that only returns what
  its next-handler returns, in either style, makes \<open>handleRequest\<close> and \<open>handle\<close>
  settle exactly as the dispatch of the remaining queue does (fourth and fifth
  conjunct). And two units of the same body, one calling \<open>next.handle(q)\<close> wherever
  the other calls \<open>next(q)\<close>, make \<open>handleRequest\<close> return equal results (last
  conjunct).
\<close>

theorem next_handler_call_styles:
  "createRequestHandler handlerFunction (Property name) = handlerFunction \<and>
   createRequestHandler handlerFunction Direct = handlerFunction \<and>
   (queue s = u # rest \<and> process u request = Next sty q k \<longrightarrow>
      handleRequest (Suc fuel) request s =
        (case handleRequest fuel q
                (s\<lparr>queue := rest, trace := trace s @ [Dispatched request (Some (uid u))]\<rparr>) of
           None \<Rightarrow> None
         | Some (res, s') \<Rightarrow> run (createRequestHandler (handleRequest fuel)) (k res) s')) \<and>
   (queue s = u # rest \<and>
    process u request = Next sty q (\<lambda>res. case res of Inl e \<Rightarrow> Throw e | Inr r \<Rightarrow> Respond r) \<longrightarrow>
      handleRequest (Suc fuel) request s =
        handleRequest fuel q
          (s\<lparr>queue := rest, trace := trace s @ [Dispatched request (Some (uid u))]\<rparr>)) \<and>
   (middleware s = u # rest \<and>
    process u request = Next sty q (\<lambda>res. case res of Inl e \<Rightarrow> Throw e | Inr r \<Rightarrow> Respond r) \<longrightarrow>
      handle request s =
        handleRequest (length rest) q
          (s\<lparr>queue := rest, trace := trace s @ [Dispatched request (Some (uid u))]\<rparr>)) \<and>
   (queue s = u # rest \<and> uid v = uid u \<and>
    process u request = restyle (Property ''handle'') p \<and> process v request = restyle Direct p \<longrightarrow>
      handleRequest (Suc fuel) request (s\<lparr>queue := v # rest\<rparr>) = handleRequest (Suc fuel) request s)"
proof -
  let ?s1 = "s\<lparr>queue := rest, trace := trace s @ [Dispatched request (Some (uid u))]\<rparr>"
  have by_property: "createRequestHandler handlerFunction (Property name) = handlerFunction"
    by (simp add: createRequestHandler_def)
  have by_call: "createRequestHandler handlerFunction Direct = handlerFunction"
    by (simp add: createRequestHandler_def)
  have handed: "handleRequest (Suc fuel) request s =
        (case handleRequest fuel q ?s1 of
           None \<Rightarrow> None
         | Some (res, s') \<Rightarrow> run (createRequestHandler (handleRequest fuel)) (k res) s')"
    if "queue s = u # rest" "process u request = Next sty q k" for k
    using that by (cases sty) (simp_all add: createRequestHandler_def)
  have passed: "handleRequest (Suc fuel) request s = handleRequest fuel q ?s1"
    if "queue s = u # rest"
      "process u request = Next sty q (\<lambda>res. case res of Inl e \<Rightarrow> Throw e | Inr r \<Rightarrow> Respond r)"
    unfolding handed [OF that]
    by (cases "handleRequest fuel q ?s1") (auto simp: run_pass_through)
  have top: "handle request s = handleRequest (length rest) q ?s1"
    if ms: "middleware s = u # rest"
      and pu: "process u request =
        Next sty q (\<lambda>res. case res of Inl e \<Rightarrow> Throw e | Inr r \<Rightarrow> Respond r)"
  proof -
    have "handle request s =
        (case handleRequest (length rest) q ?s1 of
           None \<Rightarrow> None
         | Some (res, s') \<Rightarrow>
             run (createRequestHandler (handleRequest (length rest)))
               (case res of Inl e \<Rightarrow> Throw e | Inr r \<Rightarrow> Respond r) s')"
      using ms pu by (cases sty) (simp_all add: handle_def createRequestHandler_def)
    then show ?thesis
      by (cases "handleRequest (length rest) q ?s1") (auto simp: run_pass_through)
  qed
  have whole: "handleRequest (Suc fuel) request (s\<lparr>queue := v # rest\<rparr>) = handleRequest (Suc fuel) request s"
    if "queue s = u # rest" "uid v = uid u"
      "process u request = restyle (Property ''handle'') p" "process v request = restyle Direct p"
    using that by (simp add: run_restyle)
  from by_property by_call handed passed top whole show ?thesis by blast
qed

theorem next_handler_call_styles_witness:
  "queue \<lparr>middleware = [], queue = [passes 0, answers 1 200], trace = []\<rparr> = passes 0 # [answers 1 200] \<and>
   process (passes 0) ''GET /'' =
     Next (Property ''handle'') ''GET /'' (\<lambda>res. case res of Inl e \<Rightarrow> Throw e | Inr r \<Rightarrow> Respond r) \<and>
   handleRequest (Suc 1) ''GET /'' \<lparr>middleware = [], queue = [passes 0, answers 1 200], trace = []\<rparr> =
     Some (Inr 200,
       \<lparr>middleware = [], queue = [],
        trace = [Dispatched ''GET /'' (Some 0), Dispatched ''GET /'' (Some 1)]\<rparr>) \<and>
   handle ''GET /'' \<lparr>middleware = [passes 0, answers 1 200], queue = [], trace = []\<rparr> =
     Some (Inr 200,
       \<lparr>middleware = [passes 0, answers 1 200], queue = [],
        trace = [Dispatched ''GET /'' (Some 0), Dispatched ''GET /'' (Some 1)]\<rparr>) \<and>
   uid (redirects 0 ''GET /'') = uid (passes 0) \<and>
   process (passes 0) ''GET /'' = restyle (Property ''handle'') (process (passes 0) ''GET /'') \<and>
   process (redirects 0 ''GET /'') ''GET /'' = restyle Direct (process (passes 0) ''GET /'') \<and>
   handleRequest (Suc 1) ''GET /''
     \<lparr>middleware = [], queue = [redirects 0 ''GET /'', answers 1 200], trace = []\<rparr> =
     Some (Inr 200,
       \<lparr>middleware = [], queue = [],
        trace = [Dispatched ''GET /'' (Some 0), Dispatched ''GET /'' (Some 1)]\<rparr>)"
  using next_handler_call_styles
    [where s = "\<lparr>middleware = [], queue = [passes 0, answers 1 200], trace = []\<rparr>"
       and u = "passes 0" and rest = "[answers 1 200]" and request = "''GET /''"
       and sty = "Property ''handle''" and q = "''GET /''" and fuel = 1
       and k = "\<lambda>res. case res of Inl e \<Rightarrow> Throw e | Inr r \<Rightarrow> Respond r"
       and v = "redirects 0 ''GET /''" and p = "process (passes 0) ''GET /''"]
    next_handler_call_styles
    [where s = "\<lparr>middleware = [passes 0, answers 1 200], queue = [], trace = []\<rparr>"
       and u = "passes 0" and rest = "[answers 1 200]" and request = "''GET /''"
       and sty = "Property ''handle''" and q = "''GET /''"]
  by (simp add: handle_def uid_def process_def passes_def answers_def redirects_def
      fun_eq_iff split: sum.split)

section \<open>The server\<close>

text \<open>
  C3. The conversion folds the raw headers into the request pair by pair, from
  left to right, each pair through one \<open>withHeader\<close>, whatever the request factory
  is. With the Request value of the specification, the values that the resulting
  request exposes for a name are the values paired with that name in the raw
  headers, in their order and with repetitions: for the raw headers
  \<open>X-A, 1, X-B, 2, X-A, 3\<close> these are \<open>1, 3\<close> for \<open>X-A\<close> and \<open>2\<close> for \<open>X-B\<close>.
\<close>

theorem raw_headers_folded_in_order:
  "to_request srv req =
     foldl (\<lambda>r (name, v). withHeader (requestFactory srv) r name v)
       (withBody (requestFactory srv)
          (createRequest (requestFactory srv) (method req)
             (urlScheme srv @ ''://'' @ (case host req of None \<Rightarrow> ''undefined'' | Some h \<Rightarrow> h) @ url req))
          req)
       (pairs (rawHeaders req)) \<and>
   (requestFactory srv = spec_requestFactory \<longrightarrow>
      (\<forall>name. header_values (to_request srv req) name =
         map snd (filter (\<lambda>(k, v). k = name) (pairs (rawHeaders req)))))"
proof -
  have "header_values (to_request srv req) name =
         map snd (filter (\<lambda>(k, v). k = name) (pairs (rawHeaders req)))"
    if "requestFactory srv = spec_requestFactory" for name
    unfolding to_request_foldl that
    by (simp add: spec_requestFactory_def header_values_foldl)
       (simp add: header_values_def spec_withBody_def spec_createRequest_def)
  then show ?thesis using to_request_foldl [of srv req] by blast
qed

theorem raw_headers_folded_in_order_witness:
  "requestFactory (new_Server HttpServer (\<lambda>rq. Inl (Error ''unused'')) spec_requestFactory ()
      :: (unit Request, unit, unit, unit) Server) = spec_requestFactory \<and>
   even (length [''X-A'', ''1'', ''X-B'', ''2'', ''X-A'', ''3'']) \<and>
   pairs [''X-A'', ''1'', ''X-B'', ''2'', ''X-A'', ''3''] =
     [(''X-A'', Some ''1''), (''X-B'', Some ''2''), (''X-A'', Some ''3'')] \<and>
   header_values
     (to_request (new_Server HttpServer (\<lambda>rq. Inl (Error ''unused'')) spec_requestFactory ()
         :: (unit Request, unit, unit, unit) Server)
        \<lparr>method = ''GET'', url = ''/'', host = Some ''example.test'',
         rawHeaders = [''X-A'', ''1'', ''X-B'', ''2'', ''X-A'', ''3''], payload = ()\<rparr>) ''X-A''
     = [Some ''1'', Some ''3''] \<and>
   header_values
     (to_request (new_Server HttpServer (\<lambda>rq. Inl (Error ''unused'')) spec_requestFactory ()
         :: (unit Request, unit, unit, unit) Server)
        \<lparr>method = ''GET'', url = ''/'', host = Some ''example.test'',
         rawHeaders = [''X-A'', ''1'', ''X-B'', ''2'', ''X-A'', ''3''], payload = ()\<rparr>) ''X-B''
     = [Some ''2''] \<and>
   requestHeaders
     (to_request (new_Server HttpServer (\<lambda>rq. Inl (Error ''unused'')) spec_requestFactory ()
         :: (unit Request, unit, unit, unit) Server)
        \<lparr>method = ''GET'', url = ''/'', host = Some ''example.test'',
         rawHeaders = [''X-A'', ''1'', ''X-B'', ''2'', ''X-A'', ''3''], payload = ()\<rparr>)
     = [(''X-A'', [Some ''1'', Some ''3'']), (''X-B'', [Some ''2''])]"
  using raw_headers_folded_in_order
    [of "new_Server HttpServer (\<lambda>rq. Inl (Error ''unused'')) spec_requestFactory ()
           :: (unit Request, unit, unit, unit) Server"
        "\<lparr>method = ''GET'', url = ''/'', host = Some ''example.test'',
          rawHeaders = [''X-A'', ''1'', ''X-B'', ''2'', ''X-A'', ''3''], payload = ()\<rparr>"]
  by (simp add: new_Server_def spec_requestFactory_def spec_withHeader_def spec_withBody_def
      spec_createRequest_def header_values_def)

text \<open>
  C7. For a response whose header names are distinct, as the property names of an
  object are, the head written to the transport has, for each header, one field
  with the values joined by a comma, in the order of the headers: the header \<open>X-A\<close>
  with the values \<open>1\<close> and \<open>3\<close> is written as \<open>X-A: 1,3\<close>.
\<close>

theorem response_headers_joined:
  "distinct (map fst (headers response)) \<and>
   requestHandler srv (to_request srv req) = Inr response \<longrightarrow>
     Server_handleRequest srv req res =
       Inr (res\<lparr>sink := Some (body response),
                head := Some (statusCode response, reasonPhrase response,
                              map (\<lambda>(name, values). (name, join '','' values)) (headers response))\<rparr>)"
proof (intro impI, elim conjE)
  assume names: "distinct (map fst (headers response))"
    and handled: "requestHandler srv (to_request srv req) = Inr response"
  from names have joined: "head_fields (headers response) =
      map (\<lambda>(name, values). (name, join '','' values)) (headers response)"
    by (rule head_fields_distinct)
  from handled have "Server_handleRequest srv req res =
      Inr (writeHead (statusCode response) (reasonPhrase response)
             (head_fields (headers response)) (pipe (body response) res))"
    by (simp add: Server_handleRequest_def)
  then show "Server_handleRequest srv req res =
       Inr (res\<lparr>sink := Some (body response),
                head := Some (statusCode response, reasonPhrase response,
                              map (\<lambda>(name, values). (name, join '','' values)) (headers response))\<rparr>)"
    by (simp add: joined writeHead_def pipe_def)
qed

theorem response_headers_joined_witness:
  "distinct (map fst [(''X-A'', [''1'', ''3'']), (''X-B'', [''2''])]) \<and>
   join '','' [''1'', ''3''] = ''1,3'' \<and>
   Server_handleRequest
     (new_Server HttpServer
        (\<lambda>rq. Inr \<lparr>statusCode = 200, reasonPhrase = ''OK'',
                     headers = [(''X-A'', [''1'', ''3'']), (''X-B'', [''2''])], body = ''hello''\<rparr>)
        spec_requestFactory ()
      :: (unit Request, unit, string, unit) Server)
     \<lparr>method = ''GET'', url = ''/'', host = Some ''example.test'', rawHeaders = [], payload = ()\<rparr>
     \<lparr>sink = None, head = None\<rparr> =
   Inr \<lparr>sink = Some ''hello'',
        head = Some (200, ''OK'', [(''X-A'', ''1,3''), (''X-B'', ''2'')])\<rparr>"
  using response_headers_joined
    [of "\<lparr>statusCode = 200, reasonPhrase = ''OK'',
          headers = [(''X-A'', [''1'', ''3'']), (''X-B'', [''2''])], body = ''hello''\<rparr>"
        "new_Server HttpServer
           (\<lambda>rq. Inr \<lparr>statusCode = 200, reasonPhrase = ''OK'',
                        headers = [(''X-A'', [''1'', ''3'']), (''X-B'', [''2''])], body = ''hello''\<rparr>)
           spec_requestFactory ()
         :: (unit Request, unit, string, unit) Server"
        "\<lparr>method = ''GET'', url = ''/'', host = Some ''example.test'', rawHeaders = [], payload = ()\<rparr>"
        "\<lparr>sink = None, head = None\<rparr>"]
  by (simp add: new_Server_def)

section \<open>The builder\<close>

text \<open>
  C8 (amended). \<open>build\<close> fails with the error \<open>No server factory provided\<close>
  whenever the server factory is unset once the startup class, if there is one,
  has been constructed and configured without an error; this is so in particular
  when there is neither a factory nor a startup class. When the startup class
  throws, \<open>build\<close> fails with that error. In both cases no server is built: a
  server comes out of \<open>build\<close> only when a factory was there after the startup step
  and returned a node server.
\<close>

theorem build_without_server_factory:
  "(run_startup b = Inr None \<longrightarrow> build env b = Inl MisconfiguredTransport) \<and>
   (serverFactory b = None \<and> startupClass b = None \<longrightarrow> build env b = Inl MisconfiguredTransport) \<and>
   (run_startup b = Inl e \<longrightarrow> build env b = Inl e) \<and>
   (build env b = Inr srv \<longrightarrow>
      (\<exists>factory node. run_startup b = Inr (Some factory) \<and> factory () = Inr node))"
proof -
  have guard: "build env b = Inl MisconfiguredTransport" if "run_startup b = Inr None"
    using that by (simp add: build_def)
  have plain: "run_startup b = Inr None" if "serverFactory b = None" "startupClass b = None"
    using that by (simp add: run_startup_def)
  have masked: "build env b = Inl e" if "run_startup b = Inl e"
    using that by (simp add: build_def)
  have built: "\<exists>factory node. run_startup b = Inr (Some factory) \<and> factory () = Inr node"
    if "build env b = Inr srv"
  proof (cases "run_startup b")
    case (Inl e')
    with that show ?thesis by (simp add: build_def)
  next
    case (Inr sf)
    show ?thesis
    proof (cases sf)
      case None
      with Inr that show ?thesis by (simp add: build_def)
    next
      case (Some factory)
      with Inr that show ?thesis by (cases "factory ()") (simp_all add: build_def)
    qed
  qed
  from guard plain masked built show ?thesis by blast
qed

theorem build_without_server_factory_witness:
  "run_startup (useStartupClass idle_startup (new_ServerBuilder :: (unit, unit) ServerBuilder)) = Inr None \<and>
   build example_container (useStartupClass idle_startup new_ServerBuilder)
     = Inl (Error ''No server factory provided'') \<and>
   serverFactory (new_ServerBuilder :: (unit, unit) ServerBuilder) = None \<and>
   startupClass (new_ServerBuilder :: (unit, unit) ServerBuilder) = None \<and>
   build example_container new_ServerBuilder = Inl (Error ''No server factory provided'') \<and>
   run_startup (useStartupClass failing_startup (new_ServerBuilder :: (unit, unit) ServerBuilder))
     = Inl (Error ''boom'') \<and>
   build example_container (useStartupClass failing_startup new_ServerBuilder) = Inl (Error ''boom'') \<and>
   build example_container (useStartupClass supplying_startup new_ServerBuilder)
     = Inr \<lparr>nodeServer = HttpsServer, requestHandler = (\<lambda>rq. Inl (Error ''unused'')),
            requestFactory = spec_requestFactory, logger = (), urlScheme = ''https''\<rparr> \<and>
   build example_container
       (useServerFactory (\<lambda>u. Inr HttpServer) (useStartupClass idle_startup new_ServerBuilder))
     = Inr \<lparr>nodeServer = HttpServer, requestHandler = (\<lambda>rq. Inl (Error ''unused'')),
            requestFactory = spec_requestFactory, logger = (), urlScheme = ''http''\<rparr>"
  using build_without_server_factory
    [where b = "useStartupClass idle_startup (new_ServerBuilder :: (unit, unit) ServerBuilder)"
       and env = example_container]
    build_without_server_factory
    [where b = "new_ServerBuilder :: (unit, unit) ServerBuilder" and env = example_container]
    build_without_server_factory
    [where b = "useStartupClass failing_startup (new_ServerBuilder :: (unit, unit) ServerBuilder)"
       and env = example_container and e = "Error ''boom''"]
  by (simp add: build_def run_startup_def MisconfiguredTransport_def new_Server_def createLogger_def
      useStartupClass_def useServerFactory_def new_ServerBuilder_def
      idle_startup_def failing_startup_def supplying_startup_def example_container_def)

text \<open>
  C8 as stated does not hold for every builder without a server factory: the guard
  stands after the startup step, so a startup class whose \<open>configure\<close> throws makes
  \<open>build\<close> fail with its own error and the guard is not reached.
\<close>

theorem build_misses_guard_counterexample:
  "serverFactory (useStartupClass failing_startup (new_ServerBuilder :: (unit, unit) ServerBuilder)) = None \<and>
   build example_container (useStartupClass failing_startup new_ServerBuilder) = Inl (Error ''boom'') \<and>
   Error ''boom'' \<noteq> MisconfiguredTransport"
  by (simp add: build_def run_startup_def MisconfiguredTransport_def useStartupClass_def
      new_ServerBuilder_def failing_startup_def)

end
